theory Spec2Isabelle
  imports Complex_Main
begin

section \<open>The GraphQL user server: store, resolvers and event bus\<close>

text \<open>
  The server keeps its data in two module-level variables, the array \<open>users\<close> and the
  counter \<open>nextUserId\<close>, and publishes one event per successful mutation through a
  \<open>PubSub\<close> object. The three mutation resolvers (\<open>createUser\<close>, \<open>updateUser\<close>,
  \<open>deleteUser\<close>) and the three subscription resolvers are modelled below as functions on
  an explicit server state; the client's link selection (\<open>splitLink\<close>) is modelled at
  the end of the definitions.
\<close>

subsection \<open>JavaScript numbers used as a counter\<close>

text \<open>
  \<open>nextUserId\<close> is a JavaScript number (an IEEE double) that starts at 4 and is only
  ever changed by \<open>nextUserId++\<close>. Integers up to \<open>2^53\<close> are represented exactly, so
  below \<open>2^53\<close> the increment is exact. At \<open>2^53\<close> the sum \<open>2^53 + 1\<close> is not
  representable and rounds (ties to even) back to \<open>2^53\<close>: the counter stays there.
  Values above \<open>2^53\<close> are never reached from 4 (lemma \<open>counter_bounded\<close>).
\<close>

definition MAX_EXACT :: nat where
  "MAX_EXACT = 2 ^ 53"

definition incr :: "nat \<Rightarrow> nat" where
  "incr n = (if n < MAX_EXACT then n + 1 else n)"

text \<open>
  \<open>Number.prototype.toString\<close> on a non-negative integer below \<open>10^21\<close> is its decimal
  numeral without leading zeros.
\<close>

definition digit :: "nat \<Rightarrow> char" where
  "digit d = ''0123456789'' ! d"

fun toString :: "nat \<Rightarrow> string" where
  "toString n = (if n < 10 then [digit n] else toString (n div 10) @ [digit (n mod 10)])"

declare toString.simps [simp del]

subsection \<open>Records of the store and the mutation inputs\<close>

text \<open>
  A stored user is an object with the keys \<open>id\<close>, \<open>name\<close>, \<open>age\<close>, \<open>salary\<close> and
  \<open>department\<close>. The id is always a string. The other four values start out non-null
  (the schema's \<open>CreateUserInput\<close> has only non-null fields) but \<open>updateUser\<close> can
  overwrite them with \<open>null\<close>, since every field of \<open>UpdateUserInput\<close> is nullable:
  \<open>None\<close> stands for \<open>null\<close>. The age is a GraphQL \<open>Int\<close> and the salary a
  \<open>Float\<close>; no resolver computes with either.
\<close>

record User =
  user_id :: string
  name :: "string option"
  age :: "int option"
  salary :: "real option"
  department :: "string option"

record CreateUserInput =
  c_name :: string
  c_age :: int
  c_salary :: real
  c_department :: string

text \<open>
  An \<open>UpdateUserInput\<close> object has each key either absent (\<open>None\<close>), present with
  \<open>null\<close> (\<open>Some None\<close>) or present with a value (\<open>Some (Some v)\<close>). The schema gives
  it no \<open>id\<close> key.
\<close>

record UpdateUserInput =
  u_name :: "string option option"
  u_age :: "int option option"
  u_salary :: "real option option"
  u_department :: "string option option"

text \<open>\<open>{ ...user, ...input }\<close>: the keys of \<open>input\<close> override those of \<open>user\<close>.\<close>

definition spread :: "User \<Rightarrow> UpdateUserInput \<Rightarrow> User" where
  "spread u inp =
     \<lparr> user_id = user_id u,
       name = (case u_name inp of None \<Rightarrow> name u | Some v \<Rightarrow> v),
       age = (case u_age inp of None \<Rightarrow> age u | Some v \<Rightarrow> v),
       salary = (case u_salary inp of None \<Rightarrow> salary u | Some v \<Rightarrow> v),
       department = (case u_department inp of None \<Rightarrow> department u | Some v \<Rightarrow> v) \<rparr>"

subsection \<open>The event bus\<close>

text \<open>
  \<open>pubsub\<close> is created by \<open>new PubSub()\<close>, with no options; the class comes from
  the package \<open>graphql-subscriptions\<close> (version 2), whose code is not part of the
  repository. The server calls two of its methods: \<open>publish(triggerName, payload)\<close>,
  with a trigger name and a payload and nothing else, and \<open>asyncIterator(triggers)\<close>,
  with a list of trigger names and nothing else. It never reads what \<open>publish\<close>
  returns. The repository's guide gives the flow: a mutation triggers
  \<open>pubsub.publish()\<close>, \<open>PubSub\<close> broadcasts to all subscribers, the client receives
  the update.

  The definitions of this subsection follow the behaviour of that class and of the
  iterator it returns (\<open>PubSubAsyncIterator\<close>):
  \<^item> \<open>asyncIterator\<close> only constructs the iterator: it has no listener yet.
  \<^item> The first call of the iterator's \<open>next()\<close> adds its listeners (one for each
    entry of \<open>eventsArray\<close>), sets \<open>allSubscribed\<close> and suspends; when it resumes it
    runs \<open>pullValue\<close>. Every later call of \<open>next()\<close> runs \<open>pullValue\<close> at once.
  \<^item> \<open>pullValue\<close> takes the oldest payload of \<open>pushQueue\<close> if there is one, and
    otherwise leaves a reader waiting in \<open>pullQueue\<close>.
  \<^item> \<open>publish\<close> calls the listeners of the trigger name. A listener is the
    iterator's \<open>pushValue\<close>, an async function that suspends before it touches a
    queue; when it resumes it hands the payload to the oldest waiting reader if there
    is one, and otherwise appends it to \<open>pushQueue\<close>.
  \<^item> \<open>return()\<close>, by which a consumer ends an iterator, is not modelled.

  The suspended continuations of an iterator resume in the order in which they were
  suspended; they are the iterator's \<open>jobs\<close>. The field \<open>resolved\<close> is a history
  variable: the payloads that readers of the iterator have been given, in order. The
  number \<open>pullQueue\<close> is the number of waiting readers. An iterator is identified by its
  position in the list of iterators, which only grows.

  The payloads are the objects the resolvers build: \<open>{ userCreated: newUser }\<close>,
  \<open>{ userUpdated: user }\<close> and \<open>{ userDeleted: id }\<close>.
\<close>

datatype payload = userCreated User | userUpdated User | userDeleted string

datatype job = PullValue | PushValue payload

record AsyncIterator =
  eventsArray :: "string list"
  allSubscribed :: bool
  pullQueue :: nat
  pushQueue :: "payload list"
  jobs :: "job list"
  resolved :: "payload list"

type_synonym PubSub = "AsyncIterator list"

text \<open>The constructor of the iterator.\<close>

definition PubSubAsyncIterator :: "string list \<Rightarrow> AsyncIterator" where
  "PubSubAsyncIterator eventNames =
     \<lparr>eventsArray = eventNames, allSubscribed = False, pullQueue = 0, pushQueue = [],
      jobs = [], resolved = []\<rparr>"

definition asyncIterator :: "string list \<Rightarrow> PubSub \<Rightarrow> PubSub" where
  "asyncIterator triggers ps = ps @ [PubSubAsyncIterator triggers]"

definition pullValue :: "AsyncIterator \<Rightarrow> AsyncIterator" where
  "pullValue it =
     (case pushQueue it of
        [] \<Rightarrow> it\<lparr>pullQueue := pullQueue it + 1\<rparr>
      | p # q \<Rightarrow> it\<lparr>pushQueue := q, resolved := resolved it @ [p]\<rparr>)"

text \<open>\<open>next()\<close>, up to the point where it returns or suspends.\<close>

definition iterator_next :: "AsyncIterator \<Rightarrow> AsyncIterator" where
  "iterator_next it =
     (if allSubscribed it then pullValue it
      else it\<lparr>allSubscribed := True, jobs := jobs it @ [PullValue]\<rparr>)"

text \<open>\<open>pushValue(event)\<close> after it has resumed.\<close>

definition pushValue :: "payload \<Rightarrow> AsyncIterator \<Rightarrow> AsyncIterator" where
  "pushValue event it =
     (if pullQueue it \<noteq> 0
      then it\<lparr>pullQueue := pullQueue it - 1, resolved := resolved it @ [event]\<rparr>
      else it\<lparr>pushQueue := pushQueue it @ [event]\<rparr>)"

text \<open>
  What \<open>publish\<close> does to one iterator: each of its listeners on the trigger name is
  called and suspends. An iterator that has not been pulled has no listener.
\<close>

definition emit :: "string \<Rightarrow> payload \<Rightarrow> AsyncIterator \<Rightarrow> AsyncIterator" where
  "emit triggerName p it =
     (if allSubscribed it
      then it\<lparr>jobs := jobs it @ replicate (count_list (eventsArray it) triggerName) (PushValue p)\<rparr>
      else it)"

definition publish :: "string \<Rightarrow> payload \<Rightarrow> PubSub \<Rightarrow> PubSub" where
  "publish triggerName p ps = map (emit triggerName p) ps"

text \<open>The oldest suspended continuation of an iterator resumes.\<close>

definition run_job :: "AsyncIterator \<Rightarrow> AsyncIterator" where
  "run_job it =
     (case jobs it of
        [] \<Rightarrow> it
      | PullValue # js \<Rightarrow> pullValue (it\<lparr>jobs := js\<rparr>)
      | PushValue p # js \<Rightarrow> pushValue p (it\<lparr>jobs := js\<rparr>))"

subsection \<open>Server state and side effects\<close>

text \<open>
  The state holds the two module variables and the bus. The field \<open>effects\<close> is a
  history variable: each side-effecting statement of a resolver appends one entry, in
  the order in which the statements run, so that the order of effects can be stated.
\<close>

datatype effect =
    SetNextUserId nat
  | StoreWrite "User list"
  | Publish string payload

record Server =
  users :: "User list"
  nextUserId :: nat
  pubsub :: PubSub
  effects :: "effect list"

text \<open>
  The errors thrown in the server: \<open>new Error(message)\<close> in the resolvers, and the
  \<open>TypeError\<close> that JavaScript raises when a parameter pattern \<open>{ user }\<close> is
  matched against \<open>undefined\<close>.
\<close>

datatype error = Error string | TypeError

definition set_nextUserId :: "nat \<Rightarrow> Server \<Rightarrow> Server" where
  "set_nextUserId n s = s\<lparr>nextUserId := n, effects := effects s @ [SetNextUserId n]\<rparr>"

definition store_write :: "User list \<Rightarrow> Server \<Rightarrow> Server" where
  "store_write us s = s\<lparr>users := us, effects := effects s @ [StoreWrite us]\<rparr>"

definition pubsub_publish :: "string \<Rightarrow> payload \<Rightarrow> Server \<Rightarrow> Server" where
  "pubsub_publish triggerName p s =
     s\<lparr>pubsub := publish triggerName p (pubsub s),
       effects := effects s @ [Publish triggerName p]\<rparr>"

text \<open>The sample data and the initial counter.\<close>

definition initial_users :: "User list" where
  "initial_users =
     [\<lparr>user_id = ''1'', name = Some ''Rahul'', age = Some 25, salary = Some 70000,
        department = Some ''Engineering''\<rparr>,
      \<lparr>user_id = ''2'', name = Some ''Aisha'', age = Some 30, salary = Some 85000,
        department = Some ''Marketing''\<rparr>,
      \<lparr>user_id = ''3'', name = Some ''Ravi'', age = Some 22, salary = Some 60000,
        department = Some ''Support''\<rparr>]"

definition initial :: Server where
  "initial = \<lparr>users = initial_users, nextUserId = 4, pubsub = [], effects = []\<rparr>"

subsection \<open>Mutation resolvers\<close>

text \<open>\<open>Array.prototype.findIndex\<close>: the first index whose element satisfies the
  predicate; \<open>None\<close> stands for \<open>-1\<close>.\<close>

fun findIndex :: "('a \<Rightarrow> bool) \<Rightarrow> 'a list \<Rightarrow> nat option" where
  "findIndex P [] = None"
| "findIndex P (x # xs) = (if P x then Some 0 else map_option Suc (findIndex P xs))"

text \<open>\<open>users.splice(userIndex, 1)\<close> removes the element at \<open>userIndex\<close>.\<close>

definition splice1 :: "nat \<Rightarrow> 'a list \<Rightarrow> 'a list" where
  "splice1 i xs = take i xs @ drop (Suc i) xs"

definition not_found :: "string \<Rightarrow> error" where
  "not_found ident = Error (''User with ID '' @ ident @ '' not found'')"

text \<open>
  \<open>createUser\<close> builds the new user from the counter and the input, increments the
  counter, pushes the user, publishes on \<open>USER_CREATED\<close> and returns the user.
\<close>

definition createUser :: "CreateUserInput \<Rightarrow> Server \<Rightarrow> Server \<times> User" where
  "createUser inp s =
     (let newUser = \<lparr>user_id = toString (nextUserId s), name = Some (c_name inp),
                     age = Some (c_age inp), salary = Some (c_salary inp),
                     department = Some (c_department inp)\<rparr>;
          s1 = set_nextUserId (incr (nextUserId s)) s;
          s2 = store_write (users s1 @ [newUser]) s1;
          s3 = pubsub_publish ''USER_CREATED'' (userCreated newUser) s2
      in (s3, newUser))"

text \<open>
  \<open>updateUser\<close> throws when no user has the id; otherwise it replaces the element at
  the found index by the spread of the old element and the input, publishes the
  element now stored there on \<open>USER_UPDATED\<close> and returns it. A throw is the result
  \<open>Inl\<close>, paired with the state at the time of the throw.
\<close>

definition updateUser :: "string \<Rightarrow> UpdateUserInput \<Rightarrow> Server \<Rightarrow> Server \<times> (error + User)" where
  "updateUser ident inp s =
     (case findIndex (\<lambda>u. user_id u = ident) (users s) of
        None \<Rightarrow> (s, Inl (not_found ident))
      | Some userIndex \<Rightarrow>
          (let s1 = store_write ((users s)[userIndex := spread (users s ! userIndex) inp]) s;
               s2 = pubsub_publish ''USER_UPDATED'' (userUpdated (users s1 ! userIndex)) s1
           in (s2, Inr (users s2 ! userIndex))))"

text \<open>
  \<open>deleteUser\<close> throws when no user has the id; otherwise it removes the element at the
  found index, publishes the id on \<open>USER_DELETED\<close> and returns \<open>true\<close>.
\<close>

definition deleteUser :: "string \<Rightarrow> Server \<Rightarrow> Server \<times> (error + bool)" where
  "deleteUser ident s =
     (case findIndex (\<lambda>u. user_id u = ident) (users s) of
        None \<Rightarrow> (s, Inl (not_found ident))
      | Some userIndex \<Rightarrow>
          (let s1 = store_write (splice1 userIndex (users s)) s;
               s2 = pubsub_publish ''USER_DELETED'' (userDeleted ident) s1
           in (s2, Inr True)))"

subsection \<open>Subscription resolvers\<close>

text \<open>
  Each \<open>subscribe\<close> function returns \<open>pubsub.asyncIterator\<close> on one trigger name. The
  model returns the new state and the position of the new iterator.

  The resolver of \<open>userCreated\<close> has the parameter list \<open>(_, __, { user })\<close>: it takes
  \<open>user\<close> out of its third argument, the context, and throws a \<open>TypeError\<close> when
  the context is \<open>undefined\<close> (\<open>None\<close>). The other two resolvers take no arguments.
\<close>

record Context =
  user :: "string option"

definition userCreated_subscribe :: "Context option \<Rightarrow> Server \<Rightarrow> Server \<times> (error + nat)" where
  "userCreated_subscribe ctx s =
     (case ctx of
        None \<Rightarrow> (s, Inl TypeError)
      | Some c \<Rightarrow>
          (s\<lparr>pubsub := asyncIterator [''USER_CREATED''] (pubsub s)\<rparr>, Inr (length (pubsub s))))"

definition userUpdated_subscribe :: "Server \<Rightarrow> Server \<times> nat" where
  "userUpdated_subscribe s =
     (s\<lparr>pubsub := asyncIterator [''USER_UPDATED''] (pubsub s)\<rparr>, length (pubsub s))"

definition userDeleted_subscribe :: "Server \<Rightarrow> Server \<times> nat" where
  "userDeleted_subscribe s =
     (s\<lparr>pubsub := asyncIterator [''USER_DELETED''] (pubsub s)\<rparr>, length (pubsub s))"

text \<open>
  The context of a subscription is what the \<open>context\<close> function given to
  \<open>useServer\<close> returns. The body of that function is commented out, so it returns
  \<open>undefined\<close>.
\<close>

definition ws_context :: "Context option" where
  "ws_context = None"

subsection \<open>Sequences of mutations\<close>

text \<open>
  The server handles one mutation after the other; a resolver that throws leaves the
  server running with the state it had.
\<close>

datatype mutation =
    CreateUser CreateUserInput
  | UpdateUser string UpdateUserInput
  | DeleteUser string

fun step :: "mutation \<Rightarrow> Server \<Rightarrow> Server" where
  "step (CreateUser inp) s = fst (createUser inp s)"
| "step (UpdateUser ident inp) s = fst (updateUser ident inp s)"
| "step (DeleteUser ident) s = fst (deleteUser ident s)"

fun run :: "Server \<Rightarrow> mutation list \<Rightarrow> Server" where
  "run s [] = s"
| "run s (m # ms) = run (step m s) ms"

subsection \<open>What happens on the server, step by step\<close>

text \<open>
  Besides mutations, three things happen on the server: a client subscribes (the
  resolver runs with the context of the WebSocket server), the consumer of an iterator
  calls \<open>next()\<close>, and a suspended continuation of an iterator resumes.
\<close>

datatype action =
    Mutate mutation
  | Subscribe_userCreated
  | Subscribe_userUpdated
  | Subscribe_userDeleted
  | Next nat
  | Job nat

definition on_iterator :: "nat \<Rightarrow> (AsyncIterator \<Rightarrow> AsyncIterator) \<Rightarrow> Server \<Rightarrow> Server" where
  "on_iterator i f s =
     (if i < length (pubsub s) then s\<lparr>pubsub := (pubsub s)[i := f (pubsub s ! i)]\<rparr> else s)"

fun act :: "action \<Rightarrow> Server \<Rightarrow> Server" where
  "act (Mutate m) s = step m s"
| "act Subscribe_userCreated s = fst (userCreated_subscribe ws_context s)"
| "act Subscribe_userUpdated s = fst (userUpdated_subscribe s)"
| "act Subscribe_userDeleted s = fst (userDeleted_subscribe s)"
| "act (Next i) s = on_iterator i iterator_next s"
| "act (Job i) s = on_iterator i run_job s"

fun acts :: "Server \<Rightarrow> action list \<Rightarrow> Server" where
  "acts s [] = s"
| "acts s (a # as) = acts (act a s) as"

subsection \<open>Notions used in the statements\<close>

text \<open>
  The number of \<open>createUser\<close> calls in a sequence, and the sequence that, for each
  \<open>k\<close> from \<open>a\<close> up to \<open>b - 1\<close>, creates a user and then deletes the user with
  id \<open>k\<close>.
\<close>

fun is_create :: "mutation \<Rightarrow> bool" where
  "is_create (CreateUser inp) = True"
| "is_create (UpdateUser ident inp) = False"
| "is_create (DeleteUser ident) = False"

definition creates :: "mutation list \<Rightarrow> nat" where
  "creates ms = length (filter is_create ms)"

text \<open>\<open>ids_below n us\<close>: every id in \<open>us\<close> is the string form of a number below \<open>n\<close>.\<close>

definition ids_below :: "nat \<Rightarrow> User list \<Rightarrow> bool" where
  "ids_below n us \<longleftrightarrow> (\<forall>u\<in>set us. \<exists>k<n. user_id u = toString k)"

definition churn :: "nat \<Rightarrow> nat \<Rightarrow> CreateUserInput \<Rightarrow> mutation list" where
  "churn a b inp = concat (map (\<lambda>k. [CreateUser inp, DeleteUser (toString k)]) [a..<b])"

text \<open>
  The payloads that a list of effects publishes to the listeners of an iterator with
  the trigger names \<open>ts\<close>, in order (one copy for each listener on the name); and the
  effects that a later state has added to an earlier one.
\<close>

fun published :: "string list \<Rightarrow> effect list \<Rightarrow> payload list" where
  "published ts [] = []"
| "published ts (Publish t p # es) = replicate (count_list ts t) p @ published ts es"
| "published ts (SetNextUserId n # es) = published ts es"
| "published ts (StoreWrite us # es) = published ts es"

definition new_effects :: "Server \<Rightarrow> Server \<Rightarrow> effect list" where
  "new_effects s s' = drop (length (effects s)) (effects s')"

text \<open>
  Everything an iterator has been handed, in order: what its readers have been given,
  what waits in its queue, and what its suspended listeners still hold.
\<close>

fun pushes :: "job list \<Rightarrow> payload list" where
  "pushes [] = []"
| "pushes (PullValue # js) = pushes js"
| "pushes (PushValue p # js) = p # pushes js"

definition got :: "AsyncIterator \<Rightarrow> payload list" where
  "got it = resolved it @ pushQueue it @ pushes (jobs it)"

text \<open>
  An iterator never has a waiting reader and a queued payload at once. The constructor
  gives such an iterator and every operation keeps it so.
\<close>

definition consistent :: "AsyncIterator \<Rightarrow> bool" where
  "consistent it \<longleftrightarrow> pullQueue it = 0 \<or> pushQueue it = []"

text \<open>
  \<open>follows es it it'\<close>: \<open>it'\<close> is the iterator \<open>it\<close> at a later time, it listens
  and has been handed, after what \<open>it\<close> had, exactly what \<open>es\<close> publishes to its
  listeners.
\<close>

definition follows :: "effect list \<Rightarrow> AsyncIterator \<Rightarrow> AsyncIterator \<Rightarrow> bool" where
  "follows es it it' \<longleftrightarrow>
     eventsArray it' = eventsArray it \<and> allSubscribed it' \<and> consistent it' \<and>
     got it' = got it @ published (eventsArray it) es"




subsection \<open>The client's link selection\<close>

text \<open>
  The client routes each operation with \<open>split(test, wsLink, httpLink)\<close>. The test
  calls \<open>getMainDefinition(query)\<close> on the query document of the operation and is true
  exactly when the \<open>kind\<close> of the definition it gets is \<open>'OperationDefinition'\<close>
  and its \<open>operation\<close> is \<open>'subscription'\<close>. \<open>split\<close> sends the operation to its
  first link when the test is true and to its second link when it is false; an error
  thrown by the test reaches the caller and no link is chosen.

  \<open>getMainDefinition\<close> comes from \<open>@apollo/client/utilities\<close>, whose code is not part
  of the repository. The definitions follow its behaviour. It first checks the
  document (\<open>checkDocument\<close>): the document must have the kind \<open>'Document'\<close>, every
  definition that is not a fragment must be an operation, and there must be at most one
  operation. Then it returns the first operation definition whose operation is
  \<open>query\<close>, \<open>mutation\<close> or \<open>subscription\<close>; if there is none, the first fragment
  definition; if there is none either, it throws. Each violation is an invariant error;
  the datatype names the four of them. A fragment definition has no \<open>operation\<close> key
  (\<open>None\<close>).
\<close>

record definition_node =
  kind :: string
  operation :: "string option"

record DocumentNode =
  doc_kind :: string
  definitions :: "definition_node list"

datatype invariant_error =
    NotADocument
  | SchemaDefinition string
  | AmbiguousDocument nat
  | NoMainDefinition

datatype link = wsLink | httpLink

definition checkDocument :: "DocumentNode \<Rightarrow> invariant_error + DocumentNode" where
  "checkDocument doc =
     (if doc_kind doc \<noteq> ''Document'' then Inl NotADocument
      else
        (let operations = filter (\<lambda>d. kind d \<noteq> ''FragmentDefinition'') (definitions doc)
         in case List.find (\<lambda>d. kind d \<noteq> ''OperationDefinition'') operations of
              Some d \<Rightarrow> Inl (SchemaDefinition (kind d))
            | None \<Rightarrow>
                if length operations \<le> 1 then Inr doc
                else Inl (AmbiguousDocument (length operations))))"

definition is_operation :: "definition_node \<Rightarrow> bool" where
  "is_operation d \<longleftrightarrow>
     kind d = ''OperationDefinition'' \<and>
     (operation d = Some ''query'' \<or> operation d = Some ''mutation'' \<or>
      operation d = Some ''subscription'')"

text \<open>The loop over the definitions; \<open>fragmentDefinition\<close> is the first fragment seen.\<close>

fun main_loop :: "definition_node list \<Rightarrow> definition_node option \<Rightarrow> invariant_error + definition_node" where
  "main_loop [] fragmentDefinition =
     (case fragmentDefinition of Some f \<Rightarrow> Inr f | None \<Rightarrow> Inl NoMainDefinition)"
| "main_loop (d # ds) fragmentDefinition =
     (if is_operation d then Inr d
      else main_loop ds
        (if kind d = ''FragmentDefinition'' \<and> fragmentDefinition = None then Some d
         else fragmentDefinition))"

definition getMainDefinition :: "DocumentNode \<Rightarrow> invariant_error + definition_node" where
  "getMainDefinition queryDoc =
     (case checkDocument queryDoc of
        Inl e \<Rightarrow> Inl e
      | Inr doc \<Rightarrow> main_loop (definitions doc) None)"

definition test :: "DocumentNode \<Rightarrow> invariant_error + bool" where
  "test query =
     (case getMainDefinition query of
        Inl e \<Rightarrow> Inl e
      | Inr d \<Rightarrow> Inr (kind d = ''OperationDefinition'' \<and> operation d = Some ''subscription''))"

definition splitLink :: "DocumentNode \<Rightarrow> invariant_error + link" where
  "splitLink query =
     (case test query of
        Inl e \<Rightarrow> Inl e
      | Inr b \<Rightarrow> Inr (if b then wsLink else httpLink))"

section \<open>Auxiliary facts\<close>

subsection \<open>The store, the counter and the mutation resolvers\<close>

lemma findIndex_None: "findIndex P xs = None \<longleftrightarrow> (\<forall>x\<in>set xs. \<not> P x)"
  by (induction xs) auto

lemma findIndex_Some:
  "findIndex P xs = Some i \<Longrightarrow> i < length xs \<and> P (xs ! i) \<and> (\<forall>j<i. \<not> P (xs ! j))"
proof (induction xs arbitrary: i)
  case Nil
  then show ?case by simp
next
  case (Cons x xs)
  show ?case
  proof (cases "P x")
    case True
    with Cons.prems show ?thesis by simp
  next
    case False
    with Cons.prems obtain k where k: "findIndex P xs = Some k" "i = Suc k"
      by auto
    from Cons.IH [OF k(1)] False k(2) show ?thesis
      by (auto simp: nth_Cons split: nat.splits)
  qed
qed

lemma findIndex_present:
  "ident \<in> user_id ` set us \<Longrightarrow> \<exists>i. findIndex (\<lambda>u. user_id u = ident) us = Some i"
  using findIndex_None [of "\<lambda>u. user_id u = ident" us] by (cases "findIndex (\<lambda>u. user_id u = ident) us") auto

lemma findIndex_absent:
  "ident \<notin> user_id ` set us \<Longrightarrow> findIndex (\<lambda>u. user_id u = ident) us = None"
  by (auto simp: findIndex_None)

lemma findIndex_append_last:
  "\<forall>x\<in>set xs. \<not> P x \<Longrightarrow> P y \<Longrightarrow> findIndex P (xs @ [y]) = Some (length xs)"
proof (induction xs)
  case Nil
  then show ?case by simp
next
  case (Cons x xs)
  from Cons.prems have nx: "\<not> P x" and rest: "\<forall>x\<in>set xs. \<not> P x" by simp_all
  have "findIndex P (xs @ [y]) = Some (length xs)"
    using rest Cons.prems(2) by (rule Cons.IH)
  then show ?case using nx by simp
qed

lemma splice1_last: "splice1 (length xs) (xs @ [y]) = xs"
  by (simp add: splice1_def)

lemma createUser_eq:
  "createUser inp s =
     (s\<lparr>users := users s @ [\<lparr>user_id = toString (nextUserId s), name = Some (c_name inp),
                     age = Some (c_age inp), salary = Some (c_salary inp),
                     department = Some (c_department inp)\<rparr>],
        nextUserId := incr (nextUserId s),
        pubsub := publish ''USER_CREATED'' (userCreated \<lparr>user_id = toString (nextUserId s), name = Some (c_name inp),
                     age = Some (c_age inp), salary = Some (c_salary inp),
                     department = Some (c_department inp)\<rparr>) (pubsub s),
        effects := effects s @ [SetNextUserId (incr (nextUserId s)),
              StoreWrite (users s @ [\<lparr>user_id = toString (nextUserId s), name = Some (c_name inp),
                     age = Some (c_age inp), salary = Some (c_salary inp),
                     department = Some (c_department inp)\<rparr>]),
              Publish ''USER_CREATED'' (userCreated \<lparr>user_id = toString (nextUserId s), name = Some (c_name inp),
                     age = Some (c_age inp), salary = Some (c_salary inp),
                     department = Some (c_department inp)\<rparr>)]\<rparr>,
      \<lparr>user_id = toString (nextUserId s), name = Some (c_name inp),
                     age = Some (c_age inp), salary = Some (c_salary inp),
                     department = Some (c_department inp)\<rparr>)"
  by (simp add: createUser_def set_nextUserId_def store_write_def pubsub_publish_def Let_def)

lemma updateUser_None:
  "findIndex (\<lambda>u. user_id u = ident) (users s) = None \<Longrightarrow>
   updateUser ident inp s = (s, Inl (not_found ident))"
  by (simp add: updateUser_def)

lemma updateUser_Some:
  "findIndex (\<lambda>u. user_id u = ident) (users s) = Some i \<Longrightarrow>
   updateUser ident inp s =
     (s\<lparr>users := (users s)[i := spread (users s ! i) inp],
        pubsub := publish ''USER_UPDATED'' (userUpdated (spread (users s ! i) inp)) (pubsub s),
        effects := effects s @ [StoreWrite ((users s)[i := spread (users s ! i) inp]),
                                Publish ''USER_UPDATED'' (userUpdated (spread (users s ! i) inp))]\<rparr>,
      Inr (spread (users s ! i) inp))"
  by (frule findIndex_Some) (simp add: updateUser_def store_write_def pubsub_publish_def Let_def)

lemma deleteUser_None:
  "findIndex (\<lambda>u. user_id u = ident) (users s) = None \<Longrightarrow>
   deleteUser ident s = (s, Inl (not_found ident))"
  by (simp add: deleteUser_def)

lemma deleteUser_Some:
  "findIndex (\<lambda>u. user_id u = ident) (users s) = Some i \<Longrightarrow>
   deleteUser ident s =
     (s\<lparr>users := splice1 i (users s),
        pubsub := publish ''USER_DELETED'' (userDeleted ident) (pubsub s),
        effects := effects s @ [StoreWrite (splice1 i (users s)),
                                Publish ''USER_DELETED'' (userDeleted ident)]\<rparr>,
      Inr True)"
  by (simp add: deleteUser_def store_write_def pubsub_publish_def Let_def)

lemma run_append: "run s (xs @ ys) = run (run s xs) ys"
  by (induction xs arbitrary: s) simp_all

lemma digit_inj: "a < 10 \<Longrightarrow> b < 10 \<Longrightarrow> digit a = digit b \<Longrightarrow> a = b"
proof -
  assume a: "a < 10" and b: "b < 10" and eq: "digit a = digit b"
  have d: "distinct ''0123456789''" by simp
  have "a < length ''0123456789''" "b < length ''0123456789''" using a b by simp_all
  with d eq show "a = b" unfolding digit_def by (simp only: nth_eq_iff_index_eq)
qed

lemma toString_nonempty: "toString n \<noteq> []"
  by (subst toString.simps) simp

lemma toString_inj: "toString n = toString m \<Longrightarrow> n = m"
proof (induction n arbitrary: m rule: toString.induct)
  case (1 n)
  show ?case
  proof (cases "n < 10")
    case n: True
    show ?thesis
    proof (cases "m < 10")
      case True
      with n "1.prems" show ?thesis
        by (simp add: toString.simps [of n] toString.simps [of m] digit_inj)
    next
      case False
      with n "1.prems" toString_nonempty [of "m div 10"] show ?thesis
        by (simp add: toString.simps [of n] toString.simps [of m])
    qed
  next
    case n: False
    show ?thesis
    proof (cases "m < 10")
      case True
      with n "1.prems" toString_nonempty [of "n div 10"] show ?thesis
        by (simp add: toString.simps [of n] toString.simps [of m])
    next
      case False
      with n "1.prems" have eq: "toString (n div 10) = toString (m div 10)"
        and dg: "digit (n mod 10) = digit (m mod 10)"
        by (simp_all add: toString.simps [of n] toString.simps [of m])
      from "1.IH" [OF n eq] have "n div 10 = m div 10" .
      moreover from dg have "n mod 10 = m mod 10" by (rule digit_inj [rotated 2]) simp_all
      ultimately show ?thesis by (metis div_mult_mod_eq)
    qed
  qed
qed

lemma MAX_EXACT_ge: "4 \<le> MAX_EXACT"
  by (simp add: MAX_EXACT_def)

lemma step_counter_bounded: "nextUserId s \<le> MAX_EXACT \<Longrightarrow> nextUserId (step m s) \<le> MAX_EXACT"
proof (cases m)
  case (CreateUser inp)
  assume "nextUserId s \<le> MAX_EXACT"
  then show ?thesis by (simp add: CreateUser createUser_eq incr_def)
next
  case (UpdateUser ident upd)
  assume "nextUserId s \<le> MAX_EXACT"
  then show ?thesis
    by (cases "findIndex (\<lambda>u. user_id u = ident) (users s)")
      (simp_all add: UpdateUser updateUser_None updateUser_Some)
next
  case (DeleteUser ident)
  assume "nextUserId s \<le> MAX_EXACT"
  then show ?thesis
    by (cases "findIndex (\<lambda>u. user_id u = ident) (users s)")
      (simp_all add: DeleteUser deleteUser_None deleteUser_Some)
qed

lemma run_counter_bounded: "nextUserId s \<le> MAX_EXACT \<Longrightarrow> nextUserId (run s ms) \<le> MAX_EXACT"
  by (induction ms arbitrary: s) (simp_all add: step_counter_bounded)

lemma counter_bounded: "nextUserId (run initial ms) \<le> MAX_EXACT"
  using MAX_EXACT_ge by (intro run_counter_bounded) (simp add: initial_def)

lemma ids_below_mono: "ids_below n us \<Longrightarrow> n \<le> n' \<Longrightarrow> ids_below n' us"
  unfolding ids_below_def by (meson less_le_trans)

lemma ids_below_fresh: "ids_below n us \<Longrightarrow> n \<le> k \<Longrightarrow> toString k \<notin> user_id ` set us"
proof
  assume b: "ids_below n us" and le: "n \<le> k" and "toString k \<in> user_id ` set us"
  then obtain u where u: "u \<in> set us" "toString k = user_id u" by (elim imageE)
  from b u(1) have "\<exists>j<n. user_id u = toString j"
    unfolding ids_below_def by (rule bspec)
  then obtain j where j: "j < n" "user_id u = toString j" by (elim exE conjE)
  from u(2) j(2) have "toString k = toString j" by simp
  then have "k = j" by (rule toString_inj)
  with j(1) le show False by simp
qed

lemma ids_below_initial: "ids_below 4 initial_users"
proof -
  have "\<exists>k<4. ''1'' = toString k"
    by (rule exI [of _ 1]) (simp add: toString.simps digit_def)
  moreover have "\<exists>k<4. ''2'' = toString k"
    by (rule exI [of _ 2]) (simp add: toString.simps digit_def)
  moreover have "\<exists>k<4. ''3'' = toString k"
    by (rule exI [of _ 3]) (simp add: toString.simps digit_def)
  ultimately show ?thesis by (simp add: ids_below_def initial_users_def)
qed

lemma ids_below_ids: "ids_below n us \<longleftrightarrow> (\<forall>x\<in>set (map user_id us). \<exists>k<n. x = toString k)"
  by (simp add: ids_below_def)

lemma user_id_spread: "user_id (spread u upd) = user_id u"
  by (simp add: spread_def)

lemma ids_update: "i < length us \<Longrightarrow> map user_id (us[i := spread (us ! i) upd]) = map user_id us"
  by (simp add: map_update user_id_spread list_update_same_conv)

lemma ids_splice1: "map user_id (splice1 i us) = splice1 i (map user_id us)"
  by (simp add: splice1_def take_map drop_map)

lemma set_splice1: "set (splice1 i xs) \<subseteq> set xs"
  unfolding splice1_def using set_take_subset [of i xs] set_drop_subset [of "Suc i" xs] by auto

lemma distinct_splice1: "distinct xs \<Longrightarrow> distinct (splice1 i xs)"
proof -
  assume d: "distinct xs"
  have "xs = take i xs @ drop i xs" by simp
  have "set (drop (Suc i) xs) \<subseteq> set (drop i xs)"
    by (metis drop_Suc set_drop_subset drop_drop plus_1_eq_Suc tl_drop drop_0 list.set_sel(2) subsetI tl_Nil)
  moreover have "set (take i xs) \<inter> set (drop i xs) = {}"
    using d by (metis append_take_drop_id distinct_append)
  ultimately have "set (take i xs) \<inter> set (drop (Suc i) xs) = {}" by auto
  with d show ?thesis by (simp add: splice1_def)
qed

lemma creates_Cons: "creates (m # ms) = creates [m] + creates ms"
  by (simp add: creates_def)

lemma creates_append: "creates (xs @ ys) = creates xs + creates ys"
  by (simp add: creates_def)

lemma step_ids:
  assumes cnt: "nextUserId s = min (4 + c) MAX_EXACT"
    and below: "ids_below (4 + c) (users s)"
    and dist: "distinct (map user_id (users s))"
    and bound: "c + creates [m] \<le> MAX_EXACT - 3"
  shows "nextUserId (step m s) = min (4 + (c + creates [m])) MAX_EXACT \<and>
         ids_below (4 + (c + creates [m])) (users (step m s)) \<and>
         distinct (map user_id (users (step m s)))"
proof (cases m)
  case (CreateUser inp)
  from bound MAX_EXACT_ge have le: "4 + c \<le> MAX_EXACT" by (simp add: CreateUser creates_def)
  with cnt have n: "nextUserId s = 4 + c" by simp
  have c': "c + creates [m] = Suc c" by (simp add: CreateUser creates_def)
  have fresh: "toString (4 + c) \<notin> user_id ` set (users s)"
    using below by (rule ids_below_fresh) simp
  have "ids_below (4 + Suc c) (users s)"
    using below by (rule ids_below_mono) simp
  moreover have "\<exists>k<4 + Suc c. toString (4 + c) = toString k"
    by (rule exI [of _ "4 + c"]) simp
  ultimately have b': "ids_below (4 + Suc c) (users (step m s))"
    unfolding ids_below_def by (simp add: CreateUser createUser_eq n)
  have "nextUserId (step m s) = min (4 + Suc c) MAX_EXACT"
    using le by (simp add: CreateUser createUser_eq n incr_def)
  moreover have "distinct (map user_id (users (step m s)))"
    using dist fresh by (simp add: CreateUser createUser_eq n)
  ultimately show ?thesis using b' by (simp add: c')
next
  case (UpdateUser ident upd)
  have c': "c + creates [m] = c" by (simp add: UpdateUser creates_def)
  show ?thesis
  proof (cases "findIndex (\<lambda>u. user_id u = ident) (users s)")
    case None
    then show ?thesis unfolding c' using cnt below dist by (simp add: UpdateUser updateUser_None)
  next
    case (Some i)
    from findIndex_Some [OF Some] have i: "i < length (users s)" by simp
    have us: "users (step m s) = (users s)[i := spread (users s ! i) upd]"
      and n: "nextUserId (step m s) = nextUserId s"
      by (simp_all add: UpdateUser updateUser_Some [OF Some])
    have ids: "map user_id (users (step m s)) = map user_id (users s)"
      unfolding us using i by (rule ids_update)
    show ?thesis
      using cnt below dist unfolding c' n ids_below_ids ids by simp
  qed
next
  case (DeleteUser ident)
  have c': "c + creates [m] = c" by (simp add: DeleteUser creates_def)
  show ?thesis
  proof (cases "findIndex (\<lambda>u. user_id u = ident) (users s)")
    case None
    then show ?thesis unfolding c' using cnt below dist by (simp add: DeleteUser deleteUser_None)
  next
    case (Some i)
    have us: "users (step m s) = splice1 i (users s)"
      and n: "nextUserId (step m s) = nextUserId s"
      by (simp_all add: DeleteUser deleteUser_Some [OF Some])
    have "ids_below (4 + c) (users (step m s))"
      using below set_splice1 [of i "users s"] unfolding us ids_below_def by auto
    moreover have "distinct (map user_id (users (step m s)))"
      unfolding us ids_splice1 using dist by (rule distinct_splice1)
    ultimately show ?thesis using cnt by (simp add: c' n)
  qed
qed

lemma run_ids:
  "nextUserId s = min (4 + c) MAX_EXACT \<Longrightarrow> ids_below (4 + c) (users s) \<Longrightarrow>
   distinct (map user_id (users s)) \<Longrightarrow> c + creates ms \<le> MAX_EXACT - 3 \<Longrightarrow>
   nextUserId (run s ms) = min (4 + (c + creates ms)) MAX_EXACT \<and>
   ids_below (4 + (c + creates ms)) (users (run s ms)) \<and>
   distinct (map user_id (users (run s ms)))"
proof (induction ms arbitrary: s c)
  case Nil
  then show ?case by (simp add: creates_def)
next
  case (Cons m ms)
  from Cons.prems(4) have b1: "c + creates [m] \<le> MAX_EXACT - 3"
    and b2: "(c + creates [m]) + creates ms \<le> MAX_EXACT - 3"
    by (simp_all add: creates_Cons [of m ms])
  from step_ids [OF Cons.prems(1-3) b1]
  have "nextUserId (step m s) = min (4 + (c + creates [m])) MAX_EXACT"
    "ids_below (4 + (c + creates [m])) (users (step m s))"
    "distinct (map user_id (users (step m s)))"
    by simp_all
  from Cons.IH [OF this b2] show ?case
    by (simp add: creates_Cons [of m ms] add.assoc)
qed

lemma initial_ids:
  "nextUserId initial = min (4 + 0) MAX_EXACT" "ids_below (4 + 0) (users initial)"
  "distinct (map user_id (users initial))"
proof -
  show "nextUserId initial = min (4 + 0) MAX_EXACT"
    using MAX_EXACT_ge by (simp add: initial_def)
  show "ids_below (4 + 0) (users initial)"
    using ids_below_initial by (simp add: initial_def)
  show "distinct (map user_id (users initial))"
    by (simp add: initial_def initial_users_def)
qed

lemma churn_Suc: "a \<le> b \<Longrightarrow> churn a (Suc b) inp = churn a b inp @ [CreateUser inp, DeleteUser (toString b)]"
  by (simp add: churn_def)

lemma churn_empty: "churn a a inp = []"
  by (simp add: churn_def)

lemma creates_churn: "a \<le> b \<Longrightarrow> creates (churn a b inp) = b - a"
proof (induction b)
  case 0
  then show ?case by (simp add: churn_empty creates_def)
next
  case (Suc b)
  show ?case
  proof (cases "a = Suc b")
    case True
    then show ?thesis by (simp add: churn_empty creates_def)
  next
    case False
    with Suc.prems have le: "a \<le> b" by simp
    from Suc.IH [OF le] le show ?thesis
      by (simp add: churn_Suc [OF le] creates_append) (simp add: creates_def)
  qed
qed

lemma create_delete_restores:
  assumes n: "nextUserId s = b" and below: "ids_below a (users s)" and le: "a \<le> b"
    and lt: "b < MAX_EXACT"
  shows "users (run s [CreateUser inp, DeleteUser (toString b)]) = users s \<and>
         nextUserId (run s [CreateUser inp, DeleteUser (toString b)]) = Suc b"
proof -
  define u where "u = \<lparr>user_id = toString b, name = Some (c_name inp), age = Some (c_age inp),
             salary = Some (c_salary inp), department = Some (c_department inp)\<rparr>"
  define s1 where "s1 = step (CreateUser inp) s"
  have us1: "users s1 = users s @ [u]" and n1: "nextUserId s1 = Suc b"
    using lt by (simp_all add: s1_def u_def createUser_eq n incr_def)
  have idu: "user_id u = toString b" by (simp add: u_def)
  have fresh: "toString b \<notin> user_id ` set (users s)"
    using below le by (rule ids_below_fresh)
  have "\<forall>x\<in>set (users s). \<not> user_id x = toString b"
  proof (intro ballI notI)
    fix x
    assume "x \<in> set (users s)" and "user_id x = toString b"
    then have "toString b \<in> user_id ` set (users s)"
      using imageI [of x "set (users s)" user_id] by simp
    with fresh show False by simp
  qed
  then have "findIndex (\<lambda>u. user_id u = toString b) (users s @ [u]) = Some (length (users s))"
    using idu by (rule findIndex_append_last)
  then have found: "findIndex (\<lambda>u. user_id u = toString b) (users s1) = Some (length (users s))"
    by (simp only: us1)
  have "users (fst (deleteUser (toString b) s1)) = users s"
    and "nextUserId (fst (deleteUser (toString b) s1)) = Suc b"
    by (simp_all add: deleteUser_Some [OF found] us1 n1 splice1_last)
  then show ?thesis by (simp add: s1_def)
qed

lemma churn_run:
  "a \<le> b \<Longrightarrow> b \<le> MAX_EXACT \<Longrightarrow> nextUserId s = a \<Longrightarrow> ids_below a (users s) \<Longrightarrow>
   users (run s (churn a b inp)) = users s \<and> nextUserId (run s (churn a b inp)) = b"
proof (induction b)
  case 0
  then show ?case by (simp add: churn_empty)
next
  case (Suc b)
  show ?case
  proof (cases "a = Suc b")
    case True
    with Suc.prems show ?thesis by (simp add: churn_empty)
  next
    case False
    with Suc.prems have le: "a \<le> b" and lt: "b < MAX_EXACT" by simp_all
    from lt have "b \<le> MAX_EXACT" by simp
    from Suc.IH [OF le this Suc.prems(3,4)]
    have us: "users (run s (churn a b inp)) = users s"
      and n: "nextUserId (run s (churn a b inp)) = b"
      by simp_all
    from Suc.prems(4) have "ids_below a (users (run s (churn a b inp)))" by (simp only: us)
    from create_delete_restores [OF n this le lt, of inp] show ?thesis
      by (simp add: churn_Suc [OF le] run_append us)
  qed
qed

subsection \<open>Iterators of the bus\<close>

lemma pushes_append: "pushes (js @ ks) = pushes js @ pushes ks"
  by (induction js rule: pushes.induct) simp_all

lemma pushes_replicate: "pushes (replicate n (PushValue p)) = replicate n p"
  by (induction n) simp_all

lemma published_append: "published ts (es @ es') = published ts es @ published ts es'"
  by (induction ts es rule: published.induct) simp_all

lemma new_effects_append: "effects s' = effects s @ es \<Longrightarrow> new_effects s s' = es"
  by (simp add: new_effects_def)

lemma new_effects_same: "effects s' = effects s \<Longrightarrow> new_effects s s' = []"
  by (simp add: new_effects_def)

lemma pullValue_facts:
  "got (pullValue it) = got it" "jobs (pullValue it) = jobs it"
  "eventsArray (pullValue it) = eventsArray it" "allSubscribed (pullValue it) = allSubscribed it"
  by (simp_all add: pullValue_def got_def split: list.splits)

lemma pullValue_consistent: "consistent it \<Longrightarrow> consistent (pullValue it)"
  by (auto simp: pullValue_def consistent_def split: list.splits)

lemma pushValue_facts:
  "jobs (pushValue p it) = jobs it"
  "eventsArray (pushValue p it) = eventsArray it" "allSubscribed (pushValue p it) = allSubscribed it"
  by (simp_all add: pushValue_def)

lemma pushValue_queues:
  "consistent it \<Longrightarrow>
   resolved (pushValue p it) @ pushQueue (pushValue p it) = resolved it @ pushQueue it @ [p]"
  by (auto simp: pushValue_def consistent_def)

lemma pushValue_consistent: "consistent it \<Longrightarrow> consistent (pushValue p it)"
  by (auto simp: pushValue_def consistent_def)

lemma run_job_facts:
  "eventsArray (run_job it) = eventsArray it" "allSubscribed (run_job it) = allSubscribed it"
  "length (jobs (run_job it)) = length (jobs it) - 1"
  by (simp_all add: run_job_def pullValue_facts pushValue_facts split: list.splits job.splits)

lemma run_job_consistent: "consistent it \<Longrightarrow> consistent (run_job it)"
proof -
  assume c: "consistent it"
  have *: "consistent (it\<lparr>jobs := js\<rparr>)" for js using c by (simp add: consistent_def)
  show ?thesis
    by (simp add: run_job_def c * pullValue_consistent pushValue_consistent
        split: list.splits job.splits)
qed

lemma run_job_got: "consistent it \<Longrightarrow> got (run_job it) = got it"
proof (cases "jobs it")
  case Nil
  then show ?thesis by (simp add: run_job_def)
next
  case (Cons j js)
  assume c: "consistent it"
  then have c': "consistent (it\<lparr>jobs := js\<rparr>)" by (simp add: consistent_def)
  show ?thesis
  proof (cases j)
    case PullValue
    have "got (pullValue (it\<lparr>jobs := js\<rparr>)) = got (it\<lparr>jobs := js\<rparr>)"
      by (rule pullValue_facts)
    then show ?thesis by (simp add: run_job_def Cons PullValue got_def)
  next
    case (PushValue p)
    from pushValue_queues [OF c', of p]
    show ?thesis
      by (simp add: run_job_def Cons PushValue got_def pushValue_facts)
  qed
qed

lemma iterator_next_got: "got (iterator_next it) = got it"
proof (cases "allSubscribed it")
  case True
  then show ?thesis by (simp add: iterator_next_def pullValue_facts)
next
  case False
  then show ?thesis by (simp add: iterator_next_def got_def pushes_append)
qed

lemma iterator_next_facts:
  "eventsArray (iterator_next it) = eventsArray it" "allSubscribed (iterator_next it)"
  by (simp_all add: iterator_next_def pullValue_facts)

lemma iterator_next_consistent: "consistent it \<Longrightarrow> consistent (iterator_next it)"
  by (simp add: iterator_next_def pullValue_consistent) (simp add: consistent_def)

lemma emit_facts:
  "eventsArray (emit t p it) = eventsArray it" "allSubscribed (emit t p it) = allSubscribed it"
  "pullQueue (emit t p it) = pullQueue it" "pushQueue (emit t p it) = pushQueue it"
  "resolved (emit t p it) = resolved it"
  "jobs (emit t p it) =
     jobs it @ (if allSubscribed it then replicate (count_list (eventsArray it) t) (PushValue p) else [])"
  by (simp_all add: emit_def)

lemma emit_consistent: "consistent (emit t p it) = consistent it"
  by (simp add: consistent_def emit_facts)

lemma emit_got:
  "got (emit t p it) =
     got it @ (if allSubscribed it then replicate (count_list (eventsArray it) t) p else [])"
  by (simp add: got_def emit_facts pushes_append pushes_replicate)

lemma length_publish: "length (publish t p ps) = length ps"
  by (simp add: publish_def)

lemma nth_publish: "i < length ps \<Longrightarrow> publish t p ps ! i = emit t p (ps ! i)"
  by (simp add: publish_def)


lemma follows_refl: "allSubscribed it \<Longrightarrow> consistent it \<Longrightarrow> follows [] it it"
  by (simp add: follows_def)

lemma follows_trans:
  "follows es it it' \<Longrightarrow> follows es' it' it'' \<Longrightarrow> follows (es @ es') it it''"
  by (simp add: follows_def published_append)

lemma follows_emit:
  "allSubscribed it \<Longrightarrow> consistent it \<Longrightarrow> published (eventsArray it) es = replicate (count_list (eventsArray it) t) p \<Longrightarrow>
   follows es it (emit t p it)"
  by (simp add: follows_def emit_facts emit_consistent emit_got)

lemma follows_run_job: "allSubscribed it \<Longrightarrow> consistent it \<Longrightarrow> follows [] it (run_job it)"
  by (simp add: follows_def run_job_facts run_job_consistent run_job_got)

lemma follows_next: "consistent it \<Longrightarrow> follows [] it (iterator_next it)"
  by (simp add: follows_def iterator_next_facts iterator_next_got iterator_next_consistent)

subsection \<open>What a listening iterator is handed\<close>

lemma subscribe_simps:
  "userCreated_subscribe None s = (s, Inl TypeError)"
  "userCreated_subscribe (Some c) s =
     (s\<lparr>pubsub := pubsub s @ [PubSubAsyncIterator [''USER_CREATED'']]\<rparr>, Inr (length (pubsub s)))"
  "userUpdated_subscribe s =
     (s\<lparr>pubsub := pubsub s @ [PubSubAsyncIterator [''USER_UPDATED'']]\<rparr>, length (pubsub s))"
  "userDeleted_subscribe s =
     (s\<lparr>pubsub := pubsub s @ [PubSubAsyncIterator [''USER_DELETED'']]\<rparr>, length (pubsub s))"
  by (simp_all add: userCreated_subscribe_def userUpdated_subscribe_def userDeleted_subscribe_def
      asyncIterator_def)

lemma published_write [simp]:
  "published ts [StoreWrite us, Publish t p] = replicate (count_list ts t) p"
  "published ts [SetNextUserId n, StoreWrite us, Publish t p] = replicate (count_list ts t) p"
  by simp_all

lemma step_cases:
  "step m s = s \<or>
   (\<exists>es t p. effects (step m s) = effects s @ es \<and>
      (\<forall>ts. published ts es = replicate (count_list ts t) p) \<and>
      pubsub (step m s) = publish t p (pubsub s))"
proof (cases m)
  case (CreateUser inp)
  have "effects (step m s) = effects s @ [SetNextUserId (incr (nextUserId s)),
          StoreWrite (users (step m s)), Publish ''USER_CREATED'' (userCreated (snd (createUser inp s)))] \<and>
        (\<forall>ts. published ts [SetNextUserId (incr (nextUserId s)),
          StoreWrite (users (step m s)), Publish ''USER_CREATED'' (userCreated (snd (createUser inp s)))] =
            replicate (count_list ts ''USER_CREATED'') (userCreated (snd (createUser inp s)))) \<and>
        pubsub (step m s) = publish ''USER_CREATED'' (userCreated (snd (createUser inp s))) (pubsub s)"
    by (simp add: CreateUser createUser_eq)
  then show ?thesis by (intro disjI2 exI)
next
  case (UpdateUser ident upd)
  show ?thesis
  proof (cases "findIndex (\<lambda>u. user_id u = ident) (users s)")
    case None
    then show ?thesis by (simp add: UpdateUser updateUser_None)
  next
    case (Some i)
    have "effects (step m s) = effects s @ [StoreWrite (users (step m s)),
            Publish ''USER_UPDATED'' (userUpdated (spread (users s ! i) upd))] \<and>
        (\<forall>ts. published ts [StoreWrite (users (step m s)),
            Publish ''USER_UPDATED'' (userUpdated (spread (users s ! i) upd))] =
            replicate (count_list ts ''USER_UPDATED'') (userUpdated (spread (users s ! i) upd))) \<and>
        pubsub (step m s) = publish ''USER_UPDATED'' (userUpdated (spread (users s ! i) upd)) (pubsub s)"
      by (simp add: UpdateUser updateUser_Some [OF Some])
    then show ?thesis by (intro disjI2 exI)
  qed
next
  case (DeleteUser ident)
  show ?thesis
  proof (cases "findIndex (\<lambda>u. user_id u = ident) (users s)")
    case None
    then show ?thesis by (simp add: DeleteUser deleteUser_None)
  next
    case (Some i)
    have "effects (step m s) = effects s @ [StoreWrite (users (step m s)),
            Publish ''USER_DELETED'' (userDeleted ident)] \<and>
        (\<forall>ts. published ts [StoreWrite (users (step m s)),
            Publish ''USER_DELETED'' (userDeleted ident)] =
            replicate (count_list ts ''USER_DELETED'') (userDeleted ident)) \<and>
        pubsub (step m s) = publish ''USER_DELETED'' (userDeleted ident) (pubsub s)"
      by (simp add: DeleteUser deleteUser_Some [OF Some])
    then show ?thesis by (intro disjI2 exI)
  qed
qed

lemma on_iterator_facts:
  "users (on_iterator j f s) = users s" "nextUserId (on_iterator j f s) = nextUserId s"
  "effects (on_iterator j f s) = effects s" "length (pubsub (on_iterator j f s)) = length (pubsub s)"
  by (simp_all add: on_iterator_def)

lemma on_iterator_nth:
  "i < length (pubsub s) \<Longrightarrow>
   pubsub (on_iterator j f s) ! i = (if j = i then f (pubsub s ! i) else pubsub s ! i)"
  by (simp add: on_iterator_def)

lemma act_follows:
  assumes i: "i < length (pubsub s)" and l: "allSubscribed (pubsub s ! i)"
    and c: "consistent (pubsub s ! i)"
  shows "\<exists>es. effects (act a s) = effects s @ es \<and> i < length (pubsub (act a s)) \<and>
           follows es (pubsub s ! i) (pubsub (act a s) ! i)"
proof (cases a)
  case (Mutate m)
  from step_cases [of m s] show ?thesis
  proof
    assume "step m s = s"
    then have "effects (act a s) = effects s @ [] \<and> i < length (pubsub (act a s)) \<and>
           follows [] (pubsub s ! i) (pubsub (act a s) ! i)"
      using i l c by (simp add: Mutate follows_refl)
    then show ?thesis by (rule exI)
  next
    assume "\<exists>es t p. effects (step m s) = effects s @ es \<and>
      (\<forall>ts. published ts es = replicate (count_list ts t) p) \<and>
      pubsub (step m s) = publish t p (pubsub s)"
    then obtain es t p where es: "effects (step m s) = effects s @ es"
      and pub: "\<forall>ts. published ts es = replicate (count_list ts t) p"
      and bus: "pubsub (step m s) = publish t p (pubsub s)"
      by (elim exE conjE)
    from pub have "published (eventsArray (pubsub s ! i)) es =
        replicate (count_list (eventsArray (pubsub s ! i)) t) p" ..
    with l c have "follows es (pubsub s ! i) (emit t p (pubsub s ! i))"
      by (rule follows_emit)
    then have "effects (act a s) = effects s @ es \<and> i < length (pubsub (act a s)) \<and>
           follows es (pubsub s ! i) (pubsub (act a s) ! i)"
      using i by (simp add: Mutate es bus length_publish nth_publish)
    then show ?thesis by (rule exI)
  qed
next
  case Subscribe_userCreated
  have "effects (act a s) = effects s @ [] \<and> i < length (pubsub (act a s)) \<and>
           follows [] (pubsub s ! i) (pubsub (act a s) ! i)"
    using i l c by (simp add: Subscribe_userCreated ws_context_def subscribe_simps follows_refl)
  then show ?thesis by (rule exI)
next
  case Subscribe_userUpdated
  have "effects (act a s) = effects s @ [] \<and> i < length (pubsub (act a s)) \<and>
           follows [] (pubsub s ! i) (pubsub (act a s) ! i)"
    using i l c by (simp add: Subscribe_userUpdated subscribe_simps follows_refl nth_append)
  then show ?thesis by (rule exI)
next
  case Subscribe_userDeleted
  have "effects (act a s) = effects s @ [] \<and> i < length (pubsub (act a s)) \<and>
           follows [] (pubsub s ! i) (pubsub (act a s) ! i)"
    using i l c by (simp add: Subscribe_userDeleted subscribe_simps follows_refl nth_append)
  then show ?thesis by (rule exI)
next
  case (Next j)
  have "effects (act a s) = effects s @ [] \<and> i < length (pubsub (act a s)) \<and>
           follows [] (pubsub s ! i) (pubsub (act a s) ! i)"
    using i l c by (simp add: Next on_iterator_facts on_iterator_nth follows_refl follows_next)
  then show ?thesis by (rule exI)
next
  case (Job j)
  have "effects (act a s) = effects s @ [] \<and> i < length (pubsub (act a s)) \<and>
           follows [] (pubsub s ! i) (pubsub (act a s) ! i)"
    using i l c by (simp add: Job on_iterator_facts on_iterator_nth follows_refl follows_run_job)
  then show ?thesis by (rule exI)
qed

lemma follows_listening: "follows es it it' \<Longrightarrow> allSubscribed it' \<and> consistent it'"
  by (simp add: follows_def)

lemma acts_follows:
  "i < length (pubsub s) \<Longrightarrow> allSubscribed (pubsub s ! i) \<Longrightarrow> consistent (pubsub s ! i) \<Longrightarrow>
   \<exists>es. effects (acts s as) = effects s @ es \<and> i < length (pubsub (acts s as)) \<and>
        follows es (pubsub s ! i) (pubsub (acts s as) ! i)"
proof (induction as arbitrary: s)
  case Nil
  then have "effects (acts s []) = effects s @ [] \<and> i < length (pubsub (acts s [])) \<and>
        follows [] (pubsub s ! i) (pubsub (acts s []) ! i)"
    by (simp add: follows_refl)
  then show ?case by (rule exI)
next
  case (Cons a as)
  from act_follows [OF Cons.prems, of a]
  obtain es where es: "effects (act a s) = effects s @ es" and i': "i < length (pubsub (act a s))"
    and f: "follows es (pubsub s ! i) (pubsub (act a s) ! i)"
    by (elim exE conjE)
  from follows_listening [OF f] have l': "allSubscribed (pubsub (act a s) ! i)"
    and c': "consistent (pubsub (act a s) ! i)" by simp_all
  from Cons.IH [OF i' l' c']
  obtain es' where es': "effects (acts (act a s) as) = effects (act a s) @ es'"
    and i'': "i < length (pubsub (acts (act a s) as))"
    and f': "follows es' (pubsub (act a s) ! i) (pubsub (acts (act a s) as) ! i)"
    by (elim exE conjE)
  have "effects (acts s (a # as)) = effects s @ (es @ es') \<and>
        i < length (pubsub (acts s (a # as))) \<and>
        follows (es @ es') (pubsub s ! i) (pubsub (acts s (a # as)) ! i)"
    using es es' i'' follows_trans [OF f f'] by simp
  then show ?case by (rule exI)
qed

lemma acts_follows_new:
  assumes "i < length (pubsub s)" "allSubscribed (pubsub s ! i)" "consistent (pubsub s ! i)"
  shows "i < length (pubsub (acts s as)) \<and>
         follows (new_effects s (acts s as)) (pubsub s ! i) (pubsub (acts s as) ! i)"
proof -
  from acts_follows [OF assms, of as]
  obtain es where es: "effects (acts s as) = effects s @ es" and i: "i < length (pubsub (acts s as))"
    and f: "follows es (pubsub s ! i) (pubsub (acts s as) ! i)"
    by (elim exE conjE)
  from i f show ?thesis by (simp add: new_effects_append [OF es])
qed

subsection \<open>Iterators that have not been pulled; consumers and the store\<close>

lemma acts_append: "acts s (xs @ ys) = acts (acts s xs) ys"
  by (induction xs arbitrary: s) simp_all

lemma act_grows:
  "\<exists>es. effects (act a s) = effects s @ es"
proof (cases a)
  case (Mutate m)
  from step_cases [of m s] show ?thesis
  proof
    assume "step m s = s"
    then have "effects (act a s) = effects s @ []" by (simp add: Mutate)
    then show ?thesis by (rule exI)
  next
    assume "\<exists>es t p. effects (step m s) = effects s @ es \<and>
      (\<forall>ts. published ts es = replicate (count_list ts t) p) \<and>
      pubsub (step m s) = publish t p (pubsub s)"
    then obtain es where "effects (step m s) = effects s @ es" by (elim exE conjE)
    then have "effects (act a s) = effects s @ es" by (simp add: Mutate)
    then show ?thesis by (rule exI)
  qed
next
  case Subscribe_userCreated
  have "effects (act a s) = effects s @ []"
    by (simp add: Subscribe_userCreated ws_context_def subscribe_simps)
  then show ?thesis by (rule exI)
next
  case Subscribe_userUpdated
  have "effects (act a s) = effects s @ []" by (simp add: Subscribe_userUpdated subscribe_simps)
  then show ?thesis by (rule exI)
next
  case Subscribe_userDeleted
  have "effects (act a s) = effects s @ []" by (simp add: Subscribe_userDeleted subscribe_simps)
  then show ?thesis by (rule exI)
next
  case (Next j)
  have "effects (act a s) = effects s @ []" by (simp add: Next on_iterator_facts)
  then show ?thesis by (rule exI)
next
  case (Job j)
  have "effects (act a s) = effects s @ []" by (simp add: Job on_iterator_facts)
  then show ?thesis by (rule exI)
qed

lemma acts_grows: "\<exists>es. effects (acts s as) = effects s @ es"
proof (induction as arbitrary: s)
  case Nil
  have "effects (acts s []) = effects s @ []" by simp
  then show ?case by (rule exI)
next
  case (Cons a as)
  from act_grows [of a s] obtain es where es: "effects (act a s) = effects s @ es" ..
  from Cons.IH [of "act a s"]
  obtain es' where es': "effects (acts (act a s) as) = effects (act a s) @ es'" ..
  have "effects (acts s (a # as)) = effects s @ (es @ es')" by (simp add: es es')
  then show ?case by (rule exI)
qed

lemma new_effects_split:
  "effects s1 = effects s @ a \<Longrightarrow> effects s2 = effects s1 @ b \<Longrightarrow>
   new_effects s s2 = new_effects s s1 @ new_effects s1 s2"
  by (simp add: new_effects_def)

lemma emit_not_listening: "\<not> allSubscribed it \<Longrightarrow> emit t p it = it"
  by (simp add: emit_def)

lemma fresh_facts:
  "\<not> allSubscribed (PubSubAsyncIterator ts)" "jobs (PubSubAsyncIterator ts) = []"
  "eventsArray (PubSubAsyncIterator ts) = ts" "got (PubSubAsyncIterator ts) = []"
  "consistent (PubSubAsyncIterator ts)" "run_job (PubSubAsyncIterator ts) = PubSubAsyncIterator ts"
  "resolved (PubSubAsyncIterator ts) = []" "pushQueue (PubSubAsyncIterator ts) = []"
  by (simp_all add: PubSubAsyncIterator_def got_def consistent_def run_job_def)

lemma act_fresh:
  assumes i: "i < length (pubsub s)" and f: "pubsub s ! i = PubSubAsyncIterator ts"
    and a: "a \<noteq> Next i"
  shows "i < length (pubsub (act a s)) \<and> pubsub (act a s) ! i = PubSubAsyncIterator ts"
proof (cases a)
  case (Mutate m)
  from step_cases [of m s] show ?thesis
  proof
    assume "step m s = s"
    then show ?thesis using i f by (simp add: Mutate)
  next
    assume "\<exists>es t p. effects (step m s) = effects s @ es \<and>
      (\<forall>ts. published ts es = replicate (count_list ts t) p) \<and>
      pubsub (step m s) = publish t p (pubsub s)"
    then obtain t p where "pubsub (step m s) = publish t p (pubsub s)" by (elim exE conjE)
    then show ?thesis
      using i f by (simp add: Mutate length_publish nth_publish emit_not_listening fresh_facts)
  qed
next
  case Subscribe_userCreated
  then show ?thesis using i f by (simp add: ws_context_def subscribe_simps)
next
  case Subscribe_userUpdated
  then show ?thesis using i f by (simp add: subscribe_simps nth_append)
next
  case Subscribe_userDeleted
  then show ?thesis using i f by (simp add: subscribe_simps nth_append)
next
  case (Next j)
  with a have "j \<noteq> i" by simp
  then show ?thesis using i f by (simp add: Next on_iterator_facts on_iterator_nth)
next
  case (Job j)
  then show ?thesis using i f by (simp add: on_iterator_facts on_iterator_nth fresh_facts)
qed

lemma acts_fresh:
  "i < length (pubsub s) \<Longrightarrow> pubsub s ! i = PubSubAsyncIterator ts \<Longrightarrow> Next i \<notin> set as \<Longrightarrow>
   i < length (pubsub (acts s as)) \<and> pubsub (acts s as) ! i = PubSubAsyncIterator ts"
proof (induction as arbitrary: s)
  case Nil
  then show ?case by simp
next
  case (Cons a as)
  from Cons.prems(3) have a: "a \<noteq> Next i" and rest: "Next i \<notin> set as" by auto
  from act_fresh [OF Cons.prems(1,2) a]
  have "i < length (pubsub (act a s))" "pubsub (act a s) ! i = PubSubAsyncIterator ts" by simp_all
  from Cons.IH [OF this rest] show ?case by simp
qed

lemma first_next_fresh:
  assumes i: "i < length (pubsub s)" and f: "pubsub s ! i = PubSubAsyncIterator ts"
  shows "i < length (pubsub (act (Next i) s))" "allSubscribed (pubsub (act (Next i) s) ! i)"
    "consistent (pubsub (act (Next i) s) ! i)" "got (pubsub (act (Next i) s) ! i) = []"
    "eventsArray (pubsub (act (Next i) s) ! i) = ts" "effects (act (Next i) s) = effects s"
  using i
  by (simp_all add: on_iterator_facts on_iterator_nth f iterator_next_facts iterator_next_got
      iterator_next_consistent fresh_facts)

lemma got_since_first_next:
  assumes i: "i < length (pubsub s)" and f: "pubsub s ! i = PubSubAsyncIterator ts"
  shows "got (pubsub (acts s as) ! i) =
     published ts (new_effects (acts s (takeWhile (\<lambda>a. a \<noteq> Next i) as)) (acts s as))"
proof -
  let ?pre = "takeWhile (\<lambda>a. a \<noteq> Next i) as"
  let ?post = "dropWhile (\<lambda>a. a \<noteq> Next i) as"
  have split: "as = ?pre @ ?post" by simp
  have "Next i \<notin> set ?pre" by (auto dest: set_takeWhileD)
  from acts_fresh [OF i f this]
  have i1: "i < length (pubsub (acts s ?pre))"
    and f1: "pubsub (acts s ?pre) ! i = PubSubAsyncIterator ts" by simp_all
  show ?thesis
  proof (cases ?post)
    case Nil
    with split have "as = ?pre @ []" by (simp only:)
    then have "as = ?pre" by simp
    then have eq: "acts s as = acts s ?pre" by simp
    show ?thesis
      unfolding eq using f1 by (simp add: fresh_facts new_effects_def)
  next
    case (Cons a rest)
    have "a = Next i"
      using hd_dropWhile [of "\<lambda>a. a \<noteq> Next i" as] Cons by auto
    with Cons split have as: "as = ?pre @ Next i # rest" by simp
    define s1 where "s1 = acts s ?pre"
    define s2 where "s2 = act (Next i) s1"
    from i1 f1 have i1': "i < length (pubsub s1)" and f1': "pubsub s1 ! i = PubSubAsyncIterator ts"
      by (simp_all add: s1_def)
    note n = first_next_fresh [OF i1' f1', folded s2_def]
    from acts_follows_new [OF n(1,2,3), of rest]
    have "follows (new_effects s2 (acts s2 rest)) (pubsub s2 ! i) (pubsub (acts s2 rest) ! i)"
      by simp
    then have g: "got (pubsub (acts s2 rest) ! i) = published ts (new_effects s2 (acts s2 rest))"
      by (simp add: follows_def n(4,5))
    have fin: "acts s as = acts s2 rest"
      by (subst as) (simp add: acts_append s1_def s2_def)
    have "new_effects s2 (acts s2 rest) = new_effects s1 (acts s2 rest)"
      by (simp add: new_effects_def n(6))
    with g show ?thesis by (simp add: fin s1_def)
  qed
qed




subsection \<open>Draining, reachable states, trigger names without an iterator\<close>




text \<open>Every iterator of a state the server can reach is consistent.\<close>

lemma act_all_consistent: "list_all consistent (pubsub s) \<Longrightarrow> list_all consistent (pubsub (act a s))"
proof (cases a)
  case (Mutate m)
  assume ac: "list_all consistent (pubsub s)"
  from step_cases [of m s] show ?thesis
  proof
    assume "step m s = s"
    then show ?thesis using ac by (simp add: Mutate)
  next
    assume "\<exists>es t p. effects (step m s) = effects s @ es \<and>
      (\<forall>ts. published ts es = replicate (count_list ts t) p) \<and>
      pubsub (step m s) = publish t p (pubsub s)"
    then obtain t p where "pubsub (step m s) = publish t p (pubsub s)" by (elim exE conjE)
    then show ?thesis
      using ac by (simp add: Mutate publish_def list_all_iff emit_consistent)
  qed
next
  case Subscribe_userCreated
  assume "list_all consistent (pubsub s)"
  then show ?thesis by (simp add: Subscribe_userCreated ws_context_def subscribe_simps)
next
  case Subscribe_userUpdated
  assume "list_all consistent (pubsub s)"
  then show ?thesis by (simp add: Subscribe_userUpdated subscribe_simps fresh_facts)
next
  case Subscribe_userDeleted
  assume "list_all consistent (pubsub s)"
  then show ?thesis by (simp add: Subscribe_userDeleted subscribe_simps fresh_facts)
next
  case (Next j)
  assume ac: "list_all consistent (pubsub s)"
  show ?thesis
  proof (cases "j < length (pubsub s)")
    case True
    from ac True have "consistent (pubsub s ! j)" by (simp add: list_all_length)
    then have "consistent (iterator_next (pubsub s ! j))" by (rule iterator_next_consistent)
    with ac show ?thesis
      by (auto simp: Next on_iterator_def list_all_length nth_list_update)
  next
    case False
    with ac show ?thesis by (simp add: Next on_iterator_def)
  qed
next
  case (Job j)
  assume ac: "list_all consistent (pubsub s)"
  show ?thesis
  proof (cases "j < length (pubsub s)")
    case True
    from ac True have "consistent (pubsub s ! j)" by (simp add: list_all_length)
    then have "consistent (run_job (pubsub s ! j))" by (rule run_job_consistent)
    with ac show ?thesis
      by (auto simp: Job on_iterator_def list_all_length nth_list_update)
  next
    case False
    with ac show ?thesis by (simp add: Job on_iterator_def)
  qed
qed

lemma acts_all_consistent: "list_all consistent (pubsub s) \<Longrightarrow> list_all consistent (pubsub (acts s as))"
  by (induction as arbitrary: s) (simp_all add: act_all_consistent)

lemma reachable_consistent:
  "i < length (pubsub (acts initial as)) \<Longrightarrow> consistent (pubsub (acts initial as) ! i)"
proof -
  have "list_all consistent (pubsub initial)" by (simp add: initial_def)
  then have "list_all consistent (pubsub (acts initial as))" by (rule acts_all_consistent)
  then show "i < length (pubsub (acts initial as)) \<Longrightarrow> consistent (pubsub (acts initial as) ! i)"
    by (simp add: list_all_length)
qed

text \<open>No iterator on user creation in any state the server can reach.\<close>

lemma act_no_creation_iterator:
  "filter (\<lambda>it. ''USER_CREATED'' \<in> set (eventsArray it)) (pubsub s) = [] \<Longrightarrow>
   filter (\<lambda>it. ''USER_CREATED'' \<in> set (eventsArray it)) (pubsub (act a s)) = []"
proof (cases a)
  case (Mutate m)
  assume nc: "filter (\<lambda>it. ''USER_CREATED'' \<in> set (eventsArray it)) (pubsub s) = []"
  from step_cases [of m s] show ?thesis
  proof
    assume "step m s = s"
    then show ?thesis using nc by (simp add: Mutate)
  next
    assume "\<exists>es t p. effects (step m s) = effects s @ es \<and>
      (\<forall>ts. published ts es = replicate (count_list ts t) p) \<and>
      pubsub (step m s) = publish t p (pubsub s)"
    then obtain t p where "pubsub (step m s) = publish t p (pubsub s)" by (elim exE conjE)
    then show ?thesis
      using nc by (simp add: Mutate publish_def filter_empty_conv emit_facts)
  qed
next
  case Subscribe_userCreated
  assume "filter (\<lambda>it. ''USER_CREATED'' \<in> set (eventsArray it)) (pubsub s) = []"
  then show ?thesis by (simp add: Subscribe_userCreated ws_context_def subscribe_simps)
next
  case Subscribe_userUpdated
  assume "filter (\<lambda>it. ''USER_CREATED'' \<in> set (eventsArray it)) (pubsub s) = []"
  then show ?thesis by (simp add: Subscribe_userUpdated subscribe_simps fresh_facts)
next
  case Subscribe_userDeleted
  assume "filter (\<lambda>it. ''USER_CREATED'' \<in> set (eventsArray it)) (pubsub s) = []"
  then show ?thesis by (simp add: Subscribe_userDeleted subscribe_simps fresh_facts)
next
  case (Next j)
  assume nc: "filter (\<lambda>it. ''USER_CREATED'' \<in> set (eventsArray it)) (pubsub s) = []"
  then have "\<forall>i<length (pubsub s). ''USER_CREATED'' \<notin> set (eventsArray (pubsub s ! i))"
    by (simp add: filter_empty_conv all_set_conv_all_nth)
  then have "\<forall>i<length (pubsub (act a s)). ''USER_CREATED'' \<notin> set (eventsArray (pubsub (act a s) ! i))"
    by (simp add: Next on_iterator_facts on_iterator_nth iterator_next_facts)
  then show ?thesis by (simp add: filter_empty_conv all_set_conv_all_nth)
next
  case (Job j)
  assume nc: "filter (\<lambda>it. ''USER_CREATED'' \<in> set (eventsArray it)) (pubsub s) = []"
  then have "\<forall>i<length (pubsub s). ''USER_CREATED'' \<notin> set (eventsArray (pubsub s ! i))"
    by (simp add: filter_empty_conv all_set_conv_all_nth)
  then have "\<forall>i<length (pubsub (act a s)). ''USER_CREATED'' \<notin> set (eventsArray (pubsub (act a s) ! i))"
    by (simp add: Job on_iterator_facts on_iterator_nth run_job_facts)
  then show ?thesis by (simp add: filter_empty_conv all_set_conv_all_nth)
qed

lemma acts_no_creation_iterator:
  "filter (\<lambda>it. ''USER_CREATED'' \<in> set (eventsArray it)) (pubsub s) = [] \<Longrightarrow>
   filter (\<lambda>it. ''USER_CREATED'' \<in> set (eventsArray it)) (pubsub (acts s as)) = []"
  by (induction as arbitrary: s) (simp_all add: act_no_creation_iterator)

lemma emit_other: "t \<notin> set (eventsArray it) \<Longrightarrow> emit t p it = it"
  by (simp add: emit_def)

lemma publish_nobody:
  "filter (\<lambda>it. t \<in> set (eventsArray it)) ps = [] \<Longrightarrow> publish t p ps = ps"
  by (simp add: publish_def filter_empty_conv emit_other map_idI)

subsection \<open>Particular runs of the server\<close>

lemma waiting_subscriber:
  "acts initial [Subscribe_userUpdated, Next 0, Job 0] =
     initial\<lparr>pubsub := [\<lparr>eventsArray = [''USER_UPDATED''], allSubscribed = True, pullQueue = 1,
        pushQueue = [], jobs = [], resolved = []\<rparr>]\<rparr>"
  by (simp add: subscribe_simps initial_def on_iterator_def PubSubAsyncIterator_def
      iterator_next_def run_job_def pullValue_def)

lemma two_updates_one_read:
  "acts initial [Subscribe_userUpdated, Next 0, Job 0,
       Mutate (UpdateUser ''1'' \<lparr>u_name = None, u_age = None, u_salary = None, u_department = None\<rparr>),
       Job 0,
       Mutate (UpdateUser ''1'' \<lparr>u_name = None, u_age = None, u_salary = None, u_department = None\<rparr>),
       Job 0] =
   \<lparr>users = initial_users, nextUserId = 4,
     pubsub = [\<lparr>eventsArray = [''USER_UPDATED''], allSubscribed = True, pullQueue = 0,
        pushQueue = [userUpdated (initial_users ! 0)], jobs = [],
        resolved = [userUpdated (initial_users ! 0)]\<rparr>],
     effects = [StoreWrite initial_users, Publish ''USER_UPDATED'' (userUpdated (initial_users ! 0)),
                StoreWrite initial_users, Publish ''USER_UPDATED'' (userUpdated (initial_users ! 0))]\<rparr>"
  by (simp add: subscribe_simps initial_def on_iterator_def PubSubAsyncIterator_def
      iterator_next_def run_job_def pullValue_def pushValue_def initial_users_def updateUser_def
      store_write_def pubsub_publish_def spread_def publish_def emit_def)











lemma fresh_iterator_history:
  assumes b: "pubsub s1 = ps @ [PubSubAsyncIterator ts]"
  shows "got (pubsub (acts s1 as) ! length ps) =
           published ts (new_effects (acts s1 (takeWhile (\<lambda>a. a \<noteq> Next (length ps)) as)) (acts s1 as)) \<and>
         published ts (new_effects s1 (acts s1 as)) =
           published ts (new_effects s1 (acts s1 (takeWhile (\<lambda>a. a \<noteq> Next (length ps)) as))) @
           got (pubsub (acts s1 as) ! length ps)"
proof -
  let ?pre = "takeWhile (\<lambda>a. a \<noteq> Next (length ps)) as"
  let ?post = "dropWhile (\<lambda>a. a \<noteq> Next (length ps)) as"
  from b have i: "length ps < length (pubsub s1)"
    and f: "pubsub s1 ! length ps = PubSubAsyncIterator ts" by simp_all
  have g: "got (pubsub (acts s1 as) ! length ps) =
           published ts (new_effects (acts s1 ?pre) (acts s1 as))"
    by (rule got_since_first_next [OF i f])
  have "as = ?pre @ ?post" by simp
  then have "acts s1 as = acts s1 (?pre @ ?post)" by (simp only:)
  then have fin: "acts s1 as = acts (acts s1 ?pre) ?post" by (simp only: acts_append)
  from acts_grows [of s1 ?pre] obtain es1 where e1: "effects (acts s1 ?pre) = effects s1 @ es1" ..
  from acts_grows [of "acts s1 ?pre" ?post] obtain es2
    where "effects (acts (acts s1 ?pre) ?post) = effects (acts s1 ?pre) @ es2" ..
  then have e2: "effects (acts s1 as) = effects (acts s1 ?pre) @ es2" by (simp only: fin)
  from new_effects_split [OF e1 e2]
  have "published ts (new_effects s1 (acts s1 as)) =
      published ts (new_effects s1 (acts s1 ?pre)) @ published ts (new_effects (acts s1 ?pre) (acts s1 as))"
    by (simp only: published_append)
  with g show ?thesis by simp
qed

lemma run_acts: "run s ms = acts s (map Mutate ms)"
  by (induction ms arbitrary: s) simp_all

lemma fresh_after_mutations:
  assumes b: "pubsub s1 = ps @ [PubSubAsyncIterator ts]"
  shows "pubsub (run s1 ms) ! length ps = PubSubAsyncIterator ts"
proof -
  from b have i: "length ps < length (pubsub s1)"
    and f: "pubsub s1 ! length ps = PubSubAsyncIterator ts" by simp_all
  have n: "Next (length ps) \<notin> set (map Mutate ms)" by auto
  from acts_fresh [OF i f n] show ?thesis by (simp add: run_acts)
qed

lemma publish_others:
  "filter (\<lambda>it. t \<notin> set (eventsArray it)) (publish t p ps) =
   filter (\<lambda>it. t \<notin> set (eventsArray it)) ps"
proof (induction ps)
  case Nil
  show ?case by (simp add: publish_def)
next
  case (Cons it ps)
  then have IH: "filter (\<lambda>it. t \<notin> set (eventsArray it)) (map (emit t p) ps) =
      filter (\<lambda>it. t \<notin> set (eventsArray it)) ps"
    by (simp add: publish_def)
  show ?case
  proof (cases "t \<in> set (eventsArray it)")
    case True
    then show ?thesis by (simp add: publish_def IH emit_facts)
  next
    case False
    then show ?thesis by (simp add: publish_def IH emit_other)
  qed
qed

lemma initial_no_creation_iterator:
  "filter (\<lambda>it. ''USER_CREATED'' \<in> set (eventsArray it)) (pubsub (acts initial as)) = []"
  by (rule acts_no_creation_iterator) (simp add: initial_def)

subsection \<open>The main definition of a document\<close>

lemma main_loop_closed:
  "main_loop ds f =
     (case List.find is_operation ds of
        Some d \<Rightarrow> Inr d
      | None \<Rightarrow>
          (case (case f of Some g \<Rightarrow> Some g
                          | None \<Rightarrow> List.find (\<lambda>d. kind d = ''FragmentDefinition'') ds) of
             Some g \<Rightarrow> Inr g
           | None \<Rightarrow> Inl NoMainDefinition))"
  by (induction ds arbitrary: f) (simp_all split: option.splits)

lemma main_loop_fails_gen:
  "(\<exists>e. main_loop ds f = Inl e) \<longleftrightarrow>
   f = None \<and> (\<forall>d\<in>set ds. \<not> is_operation d \<and> kind d \<noteq> ''FragmentDefinition'')"
proof (induction ds arbitrary: f)
  case Nil
  show ?case by (cases f) simp_all
next
  case (Cons d ds)
  show ?case
  proof (cases "is_operation d")
    case True
    then show ?thesis by simp
  next
    case False
    show ?thesis
    proof (cases "kind d = ''FragmentDefinition'' \<and> f = None")
      case True
      with False Cons.IH [of "Some d"] show ?thesis by simp
    next
      case no: False
      with False Cons.IH [of f] show ?thesis by (cases f) simp_all
    qed
  qed
qed

lemma find_Some_set: "List.find P xs = Some x \<Longrightarrow> P x \<and> x \<in> set xs"
  by (induction xs) (auto split: if_splits)

lemma main_loop_error: "main_loop ds f = Inl e \<Longrightarrow> e = NoMainDefinition"
  by (simp add: main_loop_closed split: option.splits)

lemma checkDocument_Inr: "checkDocument q = Inr q' \<Longrightarrow> q' = q"
  by (simp add: checkDocument_def Let_def split: if_splits option.splits)

lemma checkDocument_fails:
  "(\<exists>e. checkDocument q = Inl e) \<longleftrightarrow>
   doc_kind q \<noteq> ''Document'' \<or>
   (\<exists>d\<in>set (definitions q). kind d \<noteq> ''FragmentDefinition'' \<and> kind d \<noteq> ''OperationDefinition'') \<or>
   1 < length (filter (\<lambda>d. kind d \<noteq> ''FragmentDefinition'') (definitions q))"
proof (cases "doc_kind q = ''Document''")
  case False
  then show ?thesis by (simp add: checkDocument_def)
next
  case doc: True
  let ?ops = "filter (\<lambda>d. kind d \<noteq> ''FragmentDefinition'') (definitions q)"
  show ?thesis
  proof (cases "List.find (\<lambda>d. kind d \<noteq> ''OperationDefinition'') ?ops")
    case None
    then have "\<not> (\<exists>d\<in>set (definitions q). kind d \<noteq> ''FragmentDefinition'' \<and> kind d \<noteq> ''OperationDefinition'')"
      by (simp add: find_None_iff)
    with None doc show ?thesis by (simp add: checkDocument_def Let_def not_le)
  next
    case (Some d)
    from find_Some_set [OF Some]
    have "kind d \<noteq> ''OperationDefinition''" "d \<in> set (definitions q)"
      "kind d \<noteq> ''FragmentDefinition''"
      by simp_all
    then have "\<exists>d\<in>set (definitions q). kind d \<noteq> ''FragmentDefinition'' \<and> kind d \<noteq> ''OperationDefinition''"
      by (intro bexI [of _ d]) simp_all
    with Some doc show ?thesis by (simp add: checkDocument_def Let_def)
  qed
qed

lemma find_filter: "(\<And>x. P x \<Longrightarrow> Q x) \<Longrightarrow> List.find P (filter Q xs) = List.find P xs"
  by (induction xs) auto

lemma is_operation_kind:
  "is_operation d \<Longrightarrow> kind d = ''OperationDefinition''"
  "is_operation d \<Longrightarrow> kind d \<noteq> ''FragmentDefinition''"
  by (simp_all add: is_operation_def)

lemma getMainDefinition_checked:
  "checkDocument q = Inr q' \<Longrightarrow> getMainDefinition q = main_loop (definitions q) None"
  by (frule checkDocument_Inr) (simp add: getMainDefinition_def)

lemma getMainDefinition_fails:
  "(\<exists>e. getMainDefinition q = Inl e) \<longleftrightarrow>
   doc_kind q \<noteq> ''Document'' \<or>
   (\<exists>d\<in>set (definitions q). kind d \<noteq> ''FragmentDefinition'' \<and> kind d \<noteq> ''OperationDefinition'') \<or>
   1 < length (filter (\<lambda>d. kind d \<noteq> ''FragmentDefinition'') (definitions q)) \<or>
   (\<forall>d\<in>set (definitions q). \<not> is_operation d \<and> kind d \<noteq> ''FragmentDefinition'')"
proof -
  define L where "L \<longleftrightarrow> (\<exists>e. getMainDefinition q = Inl e)"
  define K where "K \<longleftrightarrow> (\<exists>e. checkDocument q = Inl e)"
  define A where "A \<longleftrightarrow> doc_kind q \<noteq> ''Document''"
  define B where "B \<longleftrightarrow> (\<exists>d\<in>set (definitions q).
      kind d \<noteq> ''FragmentDefinition'' \<and> kind d \<noteq> ''OperationDefinition'')"
  define C where "C \<longleftrightarrow> 1 < length (filter (\<lambda>d. kind d \<noteq> ''FragmentDefinition'') (definitions q))"
  define D where "D \<longleftrightarrow> (\<forall>d\<in>set (definitions q). \<not> is_operation d \<and> kind d \<noteq> ''FragmentDefinition'')"
  have k: "K \<longleftrightarrow> A \<or> B \<or> C"
    unfolding K_def A_def B_def C_def by (rule checkDocument_fails)
  have l: "L \<longleftrightarrow> K \<or> D"
  proof (cases "checkDocument q")
    case (Inl e)
    then have "L" "K" by (simp_all add: L_def K_def getMainDefinition_def)
    then show ?thesis by simp
  next
    case (Inr q')
    then have "\<not> K" by (simp add: K_def)
    moreover have "L \<longleftrightarrow> D"
      unfolding L_def D_def getMainDefinition_checked [OF Inr] by (simp add: main_loop_fails_gen)
    ultimately show ?thesis by simp
  qed
  from k l have "L \<longleftrightarrow> A \<or> B \<or> C \<or> D" by blast
  then show ?thesis unfolding L_def A_def B_def C_def D_def .
qed

lemma getMainDefinition_single:
  assumes doc: "doc_kind q = ''Document''"
    and ops: "filter (\<lambda>d. kind d \<noteq> ''FragmentDefinition'') (definitions q) = [d]"
    and d: "is_operation d"
  shows "getMainDefinition q = Inr d"
proof -
  from d have k: "kind d = ''OperationDefinition''" by (rule is_operation_kind)
  have c: "checkDocument q = Inr q"
    by (simp add: checkDocument_def doc ops k)
  have "List.find is_operation (filter (\<lambda>d. kind d \<noteq> ''FragmentDefinition'') (definitions q)) =
      List.find is_operation (definitions q)"
    by (rule find_filter) (rule is_operation_kind)
  then have "List.find is_operation (definitions q) = Some d"
    unfolding ops using d by simp
  then show ?thesis
    unfolding getMainDefinition_checked [OF c] by (simp add: main_loop_closed)
qed

lemma getMainDefinition_fragments:
  assumes doc: "doc_kind q = ''Document''"
    and ne: "definitions q \<noteq> []"
    and fr: "\<forall>d\<in>set (definitions q). kind d = ''FragmentDefinition''"
  shows "getMainDefinition q = Inr (hd (definitions q))"
proof -
  from fr have ops: "filter (\<lambda>d. kind d \<noteq> ''FragmentDefinition'') (definitions q) = []"
    by (simp add: filter_empty_conv)
  have c: "checkDocument q = Inr q"
    by (simp add: checkDocument_def doc ops)
  have "\<not> is_operation x" if "x \<in> set (definitions q)" for x
    using fr that is_operation_kind(2) [of x] by auto
  then have none: "List.find is_operation (definitions q) = None"
    by (simp add: find_None_iff)
  from ne obtain x xs where xs: "definitions q = x # xs" by (cases "definitions q") simp_all
  with fr have "kind x = ''FragmentDefinition''" by simp
  then have "List.find (\<lambda>d. kind d = ''FragmentDefinition'') (definitions q) = Some (hd (definitions q))"
    by (simp add: xs)
  with none show ?thesis
    unfolding getMainDefinition_checked [OF c] by (simp add: main_loop_closed)
qed

lemma splitLink_cases:
  "splitLink q =
     (case getMainDefinition q of
        Inl e \<Rightarrow> Inl e
      | Inr d \<Rightarrow> Inr (if kind d = ''OperationDefinition'' \<and> operation d = Some ''subscription''
                       then wsLink else httpLink))"
  by (simp add: splitLink_def test_def split: sum.splits)

section \<open>The claims\<close>

subsection \<open>C1: the publish call follows the store write and precedes the return\<close>




subsection \<open>C2: a failed write changes nothing\<close>

text \<open>
  Claim C2. The store mutation and the event publication are atomic for the caller. If
  \<open>updateUser\<close> or \<open>deleteUser\<close> fails, the state is unchanged: the store, the counter
  and the bus are as before and nothing was published. They fail on an id that is not
  in the store. And for every mutation, either the whole state is unchanged, or the
  effects added end with the write of the final store followed by one publish, which
  the bus has received: there is no returned state with a store write and no event.
\<close>

theorem failed_write_changes_nothing:
  "(\<forall>e. snd (updateUser ident upd s) = Inl e \<longrightarrow> fst (updateUser ident upd s) = s) \<and>
   (\<forall>e. snd (deleteUser ident s) = Inl e \<longrightarrow> fst (deleteUser ident s) = s) \<and>
   (ident \<notin> user_id ` set (users s) \<longrightarrow>
      updateUser ident upd s = (s, Inl (not_found ident)) \<and>
      deleteUser ident s = (s, Inl (not_found ident))) \<and>
   (\<forall>m. step m s = s \<or>
      (\<exists>pre t p. effects (step m s) = effects s @ pre @ [StoreWrite (users (step m s)), Publish t p] \<and>
                 pubsub (step m s) = publish t p (pubsub s)))"
proof (intro conjI allI impI)
  fix e
  assume "snd (updateUser ident upd s) = Inl e"
  then show "fst (updateUser ident upd s) = s"
    by (cases "findIndex (\<lambda>u. user_id u = ident) (users s)")
      (simp_all add: updateUser_None updateUser_Some)
next
  fix e
  assume "snd (deleteUser ident s) = Inl e"
  then show "fst (deleteUser ident s) = s"
    by (cases "findIndex (\<lambda>u. user_id u = ident) (users s)")
      (simp_all add: deleteUser_None deleteUser_Some)
next
  assume "ident \<notin> user_id ` set (users s)"
  then have none: "findIndex (\<lambda>u. user_id u = ident) (users s) = None"
    by (rule findIndex_absent)
  show "updateUser ident upd s = (s, Inl (not_found ident))"
    using none by (rule updateUser_None)
  show "deleteUser ident s = (s, Inl (not_found ident))"
    using none by (rule deleteUser_None)
next
  fix m
  show "step m s = s \<or>
      (\<exists>pre t p. effects (step m s) = effects s @ pre @ [StoreWrite (users (step m s)), Publish t p] \<and>
                 pubsub (step m s) = publish t p (pubsub s))"
  proof (cases m)
    case (CreateUser inp)
    have "effects (step m s) = effects s @ [SetNextUserId (incr (nextUserId s))] @
            [StoreWrite (users (step m s)), Publish ''USER_CREATED'' (userCreated (snd (createUser inp s)))]
          \<and> pubsub (step m s) = publish ''USER_CREATED'' (userCreated (snd (createUser inp s))) (pubsub s)"
      by (simp add: CreateUser createUser_eq)
    then show ?thesis by (intro disjI2 exI)
  next
    case (UpdateUser i' upd')
    show ?thesis
    proof (cases "findIndex (\<lambda>u. user_id u = i') (users s)")
      case None
      then show ?thesis by (simp add: UpdateUser updateUser_None)
    next
      case (Some i)
      have "effects (step m s) = effects s @ [] @
            [StoreWrite (users (step m s)), Publish ''USER_UPDATED'' (userUpdated (spread (users s ! i) upd'))]
          \<and> pubsub (step m s) = publish ''USER_UPDATED'' (userUpdated (spread (users s ! i) upd')) (pubsub s)"
        by (simp add: UpdateUser updateUser_Some [OF Some])
      then show ?thesis by (intro disjI2 exI)
    qed
  next
    case (DeleteUser i')
    show ?thesis
    proof (cases "findIndex (\<lambda>u. user_id u = i') (users s)")
      case None
      then show ?thesis by (simp add: DeleteUser deleteUser_None)
    next
      case (Some i)
      have "effects (step m s) = effects s @ [] @
            [StoreWrite (users (step m s)), Publish ''USER_DELETED'' (userDeleted i')]
          \<and> pubsub (step m s) = publish ''USER_DELETED'' (userDeleted i') (pubsub s)"
        by (simp add: DeleteUser deleteUser_Some [OF Some])
      then show ?thesis by (intro disjI2 exI)
    qed
  qed
qed

text \<open>
  Witness for C2: id 7 is not in the sample data, so both resolvers fail and return the
  initial state; deleting user 2 changes the state and publishes.
\<close>

theorem failed_write_changes_nothing_witness:
  "''7'' \<notin> user_id ` set (users initial) \<and>
   updateUser ''7'' \<lparr>u_name = Some (Some ''Z''), u_age = None, u_salary = None, u_department = None\<rparr> initial =
     (initial, Inl (Error ''User with ID 7 not found'')) \<and>
   deleteUser ''7'' initial = (initial, Inl (Error ''User with ID 7 not found'')) \<and>
   step (DeleteUser ''2'') initial \<noteq> initial \<and>
   (\<exists>pre t p. effects (step (DeleteUser ''2'') initial) =
       effects initial @ pre @ [StoreWrite (users (step (DeleteUser ''2'') initial)), Publish t p] \<and>
     pubsub (step (DeleteUser ''2'') initial) = publish t p (pubsub initial))"
proof -
  let ?upd = "\<lparr>u_name = Some (Some ''Z''), u_age = None, u_salary = None, u_department = None\<rparr>"
  note th = failed_write_changes_nothing [of "''7''" ?upd initial]
  have absent: "''7'' \<notin> user_id ` set (users initial)"
    by (simp add: initial_def initial_users_def)
  have msg: "not_found ''7'' = Error ''User with ID 7 not found''"
    by (simp add: not_found_def)
  from th absent have "updateUser ''7'' ?upd initial = (initial, Inl (not_found ''7''))"
    and "deleteUser ''7'' initial = (initial, Inl (not_found ''7''))"
    by simp_all
  then have fail: "updateUser ''7'' ?upd initial = (initial, Inl (Error ''User with ID 7 not found''))"
    "deleteUser ''7'' initial = (initial, Inl (Error ''User with ID 7 not found''))"
    by (simp_all only: msg)
  have changed: "step (DeleteUser ''2'') initial \<noteq> initial"
  proof
    assume "step (DeleteUser ''2'') initial = initial"
    then have "users (step (DeleteUser ''2'') initial) = users initial" by simp
    then show False
      by (simp add: deleteUser_def initial_def initial_users_def store_write_def pubsub_publish_def
          splice1_def)
  qed
  from th have "step (DeleteUser ''2'') initial = initial \<or>
      (\<exists>pre t p. effects (step (DeleteUser ''2'') initial) =
          effects initial @ pre @ [StoreWrite (users (step (DeleteUser ''2'') initial)), Publish t p] \<and>
        pubsub (step (DeleteUser ''2'') initial) = publish t p (pubsub initial))"
    by (elim conjE allE)
  then have "\<exists>pre t p. effects (step (DeleteUser ''2'') initial) =
          effects initial @ pre @ [StoreWrite (users (step (DeleteUser ''2'') initial)), Publish t p] \<and>
        pubsub (step (DeleteUser ''2'') initial) = publish t p (pubsub initial)"
  proof
    assume "step (DeleteUser ''2'') initial = initial"
    with changed show ?thesis ..
  qed
  with absent fail changed show ?thesis by (intro conjI)
qed

subsection \<open>C3: events carry no sequence number; a listening iterator is handed the publish history\<close>

text \<open>
  Claim C3 says that \<open>publish\<close> assigns the next sequence number of the topic and that
  these numbers reach every subscriber strictly increasing, with no gaps and no
  duplicates. The server has no sequence numbers: \<open>publish\<close> is called with a trigger
  name and a payload, and an event is the payload object and nothing else. A subscriber
  on user updates reads once; after two updates of user 1 with an empty input its reader
  has been given one event and its queue holds another, equal to the first, as the two
  calls of \<open>publish\<close> had equal arguments. So nothing that can be read off an event is
  strictly increasing along what the subscriber receives.
\<close>

theorem no_sequence_numbers_counterexample:
  "published [''USER_UPDATED'']
     (effects (acts initial [Subscribe_userUpdated, Next 0, Job 0,
       Mutate (UpdateUser ''1'' \<lparr>u_name = None, u_age = None, u_salary = None, u_department = None\<rparr>),
       Job 0,
       Mutate (UpdateUser ''1'' \<lparr>u_name = None, u_age = None, u_salary = None, u_department = None\<rparr>),
       Job 0])) =
     [userUpdated \<lparr>user_id = ''1'', name = Some ''Rahul'', age = Some 25, salary = Some 70000,
        department = Some ''Engineering''\<rparr>,
      userUpdated \<lparr>user_id = ''1'', name = Some ''Rahul'', age = Some 25, salary = Some 70000,
        department = Some ''Engineering''\<rparr>] \<and>
   resolved (pubsub (acts initial [Subscribe_userUpdated, Next 0, Job 0,
       Mutate (UpdateUser ''1'' \<lparr>u_name = None, u_age = None, u_salary = None, u_department = None\<rparr>),
       Job 0,
       Mutate (UpdateUser ''1'' \<lparr>u_name = None, u_age = None, u_salary = None, u_department = None\<rparr>),
       Job 0]) ! 0) =
     [userUpdated \<lparr>user_id = ''1'', name = Some ''Rahul'', age = Some 25, salary = Some 70000,
        department = Some ''Engineering''\<rparr>] \<and>
   pushQueue (pubsub (acts initial [Subscribe_userUpdated, Next 0, Job 0,
       Mutate (UpdateUser ''1'' \<lparr>u_name = None, u_age = None, u_salary = None, u_department = None\<rparr>),
       Job 0,
       Mutate (UpdateUser ''1'' \<lparr>u_name = None, u_age = None, u_salary = None, u_department = None\<rparr>),
       Job 0]) ! 0) =
     [userUpdated \<lparr>user_id = ''1'', name = Some ''Rahul'', age = Some 25, salary = Some 70000,
        department = Some ''Engineering''\<rparr>] \<and>
   \<not> (\<exists>sequence :: payload \<Rightarrow> nat.
        sorted_wrt (<) (map sequence
          (resolved (pubsub (acts initial [Subscribe_userUpdated, Next 0, Job 0,
             Mutate (UpdateUser ''1'' \<lparr>u_name = None, u_age = None, u_salary = None, u_department = None\<rparr>),
             Job 0,
             Mutate (UpdateUser ''1'' \<lparr>u_name = None, u_age = None, u_salary = None, u_department = None\<rparr>),
             Job 0]) ! 0) @
           pushQueue (pubsub (acts initial [Subscribe_userUpdated, Next 0, Job 0,
             Mutate (UpdateUser ''1'' \<lparr>u_name = None, u_age = None, u_salary = None, u_department = None\<rparr>),
             Job 0,
             Mutate (UpdateUser ''1'' \<lparr>u_name = None, u_age = None, u_salary = None, u_department = None\<rparr>),
             Job 0]) ! 0))))"
  unfolding two_updates_one_read by (simp add: initial_users_def)

text \<open>
  Claim C3, as amended. \<open>publish\<close> assigns no sequence number. In every state the
  server can reach, an iterator that is listening (its first \<open>next()\<close> has been called)
  stays listening on the same trigger names whatever happens next, and what it has been
  handed (\<open>got\<close>: what its readers were given, then its queue, then what its suspended
  listeners hold) is what it had been handed before followed by the payloads published
  on its trigger names since, in the order of publication, each once for each listener:
  no gaps, no duplicates, no reordering. An iterator that has not been pulled is handed
  nothing: it stays as it was constructed.
\<close>

theorem listening_iterator_gets_publish_history:
  "(i < length (pubsub (acts initial pre)) \<and> allSubscribed (pubsub (acts initial pre) ! i) \<longrightarrow>
      i < length (pubsub (acts (acts initial pre) as)) \<and>
      allSubscribed (pubsub (acts (acts initial pre) as) ! i) \<and>
      eventsArray (pubsub (acts (acts initial pre) as) ! i) = eventsArray (pubsub (acts initial pre) ! i) \<and>
      got (pubsub (acts (acts initial pre) as) ! i) =
        got (pubsub (acts initial pre) ! i) @
        published (eventsArray (pubsub (acts initial pre) ! i))
          (new_effects (acts initial pre) (acts (acts initial pre) as))) \<and>
   (i < length (pubsub s) \<and> pubsub s ! i = PubSubAsyncIterator ts \<and> Next i \<notin> set as \<longrightarrow>
      i < length (pubsub (acts s as)) \<and> pubsub (acts s as) ! i = PubSubAsyncIterator ts)"
proof (intro conjI impI)
  assume a: "i < length (pubsub (acts initial pre)) \<and> allSubscribed (pubsub (acts initial pre) ! i)"
  then have i: "i < length (pubsub (acts initial pre))"
    and l: "allSubscribed (pubsub (acts initial pre) ! i)" by simp_all
  from i have c: "consistent (pubsub (acts initial pre) ! i)" by (rule reachable_consistent)
  from acts_follows_new [OF i l c, of as]
  have "i < length (pubsub (acts (acts initial pre) as))"
    and f: "follows (new_effects (acts initial pre) (acts (acts initial pre) as))
        (pubsub (acts initial pre) ! i) (pubsub (acts (acts initial pre) as) ! i)"
    by simp_all
  then show "i < length (pubsub (acts (acts initial pre) as))" by simp
  from f show "allSubscribed (pubsub (acts (acts initial pre) as) ! i)"
    and "eventsArray (pubsub (acts (acts initial pre) as) ! i) = eventsArray (pubsub (acts initial pre) ! i)"
    and "got (pubsub (acts (acts initial pre) as) ! i) =
        got (pubsub (acts initial pre) ! i) @
        published (eventsArray (pubsub (acts initial pre) ! i))
          (new_effects (acts initial pre) (acts (acts initial pre) as))"
    by (simp_all add: follows_def)
next
  assume "i < length (pubsub s) \<and> pubsub s ! i = PubSubAsyncIterator ts \<and> Next i \<notin> set as"
  then have "i < length (pubsub s)" "pubsub s ! i = PubSubAsyncIterator ts" "Next i \<notin> set as"
    by simp_all
  from acts_fresh [OF this]
  show "i < length (pubsub (acts s as))" and "pubsub (acts s as) ! i = PubSubAsyncIterator ts"
    by simp_all
qed

text \<open>
  Witness for C3: a listening subscriber on user updates is handed the update of user 3
  and then the update of user 1, and not the deletion of user 2 published between them;
  a subscriber on user deletions that has not been pulled is unchanged by a deletion.
\<close>

theorem listening_iterator_gets_publish_history_witness:
  "allSubscribed (pubsub (acts (acts initial [Subscribe_userUpdated, Next 0, Job 0])
       [Mutate (UpdateUser ''3'' \<lparr>u_name = None, u_age = Some (Some 23), u_salary = None, u_department = None\<rparr>),
        Mutate (DeleteUser ''2''), Job 0, Subscribe_userDeleted,
        Mutate (UpdateUser ''1'' \<lparr>u_name = Some (Some ''R''), u_age = None, u_salary = None, u_department = None\<rparr>)]) ! 0) \<and>
   got (pubsub (acts (acts initial [Subscribe_userUpdated, Next 0, Job 0])
       [Mutate (UpdateUser ''3'' \<lparr>u_name = None, u_age = Some (Some 23), u_salary = None, u_department = None\<rparr>),
        Mutate (DeleteUser ''2''), Job 0, Subscribe_userDeleted,
        Mutate (UpdateUser ''1'' \<lparr>u_name = Some (Some ''R''), u_age = None, u_salary = None, u_department = None\<rparr>)]) ! 0) =
     [userUpdated \<lparr>user_id = ''3'', name = Some ''Ravi'', age = Some 23, salary = Some 60000,
        department = Some ''Support''\<rparr>,
      userUpdated \<lparr>user_id = ''1'', name = Some ''R'', age = Some 25, salary = Some 70000,
        department = Some ''Engineering''\<rparr>] \<and>
   pubsub (acts (acts initial [Subscribe_userDeleted]) [Mutate (DeleteUser ''2''), Job 0]) ! 0 =
     PubSubAsyncIterator [''USER_DELETED'']"
proof -
  let ?pre = "[Subscribe_userUpdated, Next 0, Job 0]"
  let ?as = "[Mutate (UpdateUser ''3'' \<lparr>u_name = None, u_age = Some (Some 23), u_salary = None, u_department = None\<rparr>),
        Mutate (DeleteUser ''2''), Job 0, Subscribe_userDeleted,
        Mutate (UpdateUser ''1'' \<lparr>u_name = Some (Some ''R''), u_age = None, u_salary = None, u_department = None\<rparr>)]"
  let ?v3 = "\<lparr>user_id = ''3'', name = Some ''Ravi'', age = Some 23, salary = Some 60000,
        department = Some ''Support''\<rparr>"
  let ?v1 = "\<lparr>user_id = ''1'', name = Some ''R'', age = Some 25, salary = Some 70000,
        department = Some ''Engineering''\<rparr>"
  note th = listening_iterator_gets_publish_history [where pre = ?pre and as = ?as and i = 0]
  note th' = listening_iterator_gets_publish_history [where i = 0
      and s = "acts initial [Subscribe_userDeleted]" and ts = "[''USER_DELETED'']"
      and as = "[Mutate (DeleteUser ''2''), Job 0]"]
  have h1: "0 < length (pubsub (acts initial ?pre)) \<and> allSubscribed (pubsub (acts initial ?pre) ! 0)"
    unfolding waiting_subscriber by simp
  have g0: "got (pubsub (acts initial ?pre) ! 0) = []"
    "eventsArray (pubsub (acts initial ?pre) ! 0) = [''USER_UPDATED'']"
    unfolding waiting_subscriber by (simp_all add: got_def)
  have e0: "effects (acts initial ?pre) = []"
    unfolding waiting_subscriber by (simp add: initial_def)
  have e1: "effects (acts (acts initial ?pre) ?as) =
      [StoreWrite [initial_users ! 0, initial_users ! 1, ?v3], Publish ''USER_UPDATED'' (userUpdated ?v3),
       StoreWrite [initial_users ! 0, ?v3], Publish ''USER_DELETED'' (userDeleted ''2''),
       StoreWrite [?v1, ?v3], Publish ''USER_UPDATED'' (userUpdated ?v1)]"
    unfolding waiting_subscriber
    by (simp add: subscribe_simps initial_def on_iterator_def initial_users_def updateUser_def
        deleteUser_def splice1_def store_write_def pubsub_publish_def spread_def)
  have p: "published [''USER_UPDATED''] (new_effects (acts initial ?pre) (acts (acts initial ?pre) ?as)) =
      [userUpdated ?v3, userUpdated ?v1]"
    unfolding new_effects_def e0 e1 by simp
  from th [THEN conjunct1, THEN mp, OF h1]
  have l: "allSubscribed (pubsub (acts (acts initial ?pre) ?as) ! 0)"
    and g: "got (pubsub (acts (acts initial ?pre) ?as) ! 0) =
        got (pubsub (acts initial ?pre) ! 0) @
        published (eventsArray (pubsub (acts initial ?pre) ! 0))
          (new_effects (acts initial ?pre) (acts (acts initial ?pre) ?as))"
    by simp_all
  from g have g': "got (pubsub (acts (acts initial ?pre) ?as) ! 0) = [userUpdated ?v3, userUpdated ?v1]"
    by (simp only: g0 p append_Nil)
  have h2: "0 < length (pubsub (acts initial [Subscribe_userDeleted])) \<and>
      pubsub (acts initial [Subscribe_userDeleted]) ! 0 = PubSubAsyncIterator [''USER_DELETED''] \<and>
      Next 0 \<notin> set [Mutate (DeleteUser ''2''), Job 0]"
    by (simp add: subscribe_simps initial_def)
  from th' [THEN conjunct2, THEN mp, OF h2]
  have f: "pubsub (acts (acts initial [Subscribe_userDeleted]) [Mutate (DeleteUser ''2''), Job 0]) ! 0 =
     PubSubAsyncIterator [''USER_DELETED'']" by (rule conjunct2)
  from l g' f show ?thesis by (intro conjI)
qed

subsection \<open>C4: queues are unbounded and subscribers are never dropped\<close>




subsection \<open>C5: the client splits two ways, by the main definition of the document\<close>

text \<open>
  Claim C5 says that classification returns one of Read, Write and LiveSubscribe and
  that every unknown descriptor fails with an error. The client's split has two links: a
  query and a mutation get the same link, and a document that holds only a fragment
  definition, which is no operation at all, is not rejected but sent to the HTTP link
  like a query.
\<close>

theorem splitLink_counterexample:
  "splitLink \<lparr>doc_kind = ''Document'',
      definitions = [\<lparr>kind = ''OperationDefinition'', operation = Some ''query''\<rparr>]\<rparr> = Inr httpLink \<and>
   splitLink \<lparr>doc_kind = ''Document'',
      definitions = [\<lparr>kind = ''OperationDefinition'', operation = Some ''mutation''\<rparr>]\<rparr> = Inr httpLink \<and>
   splitLink \<lparr>doc_kind = ''Document'',
      definitions = [\<lparr>kind = ''FragmentDefinition'', operation = None\<rparr>]\<rparr> = Inr httpLink"
  by (simp add: splitLink_def test_def getMainDefinition_def checkDocument_def is_operation_def)

text \<open>
  Claim C5, as amended. The link is a function of the query document, with two links as
  outcomes. It is the WebSocket link exactly when the main definition of the document is
  an operation definition with the operation \<open>subscription\<close>, and the HTTP link for
  every other main definition. A document with one operation definition (a query, a
  mutation or a subscription) beside any number of fragments gets the WebSocket link if
  the operation is a subscription and the HTTP link otherwise; a document of fragments
  only gets the HTTP link. The split fails exactly when \<open>getMainDefinition\<close> fails,
  with the same invariant error and before a link is chosen: when the document is not of
  kind \<open>Document\<close>, when it has a definition that is neither a fragment nor an
  operation, when it has more than one operation, or when it has neither a query,
  mutation or subscription operation nor a fragment. The split runs on the client: it
  reads no store and registers no subscription.
\<close>

theorem splitLink_by_main_definition:
  "(splitLink q = Inr wsLink \<longleftrightarrow>
      (\<exists>d. getMainDefinition q = Inr d \<and>
           kind d = ''OperationDefinition'' \<and> operation d = Some ''subscription'')) \<and>
   (splitLink q = Inr httpLink \<longleftrightarrow>
      (\<exists>d. getMainDefinition q = Inr d \<and>
           \<not> (kind d = ''OperationDefinition'' \<and> operation d = Some ''subscription''))) \<and>
   (splitLink q = Inl e \<longleftrightarrow> getMainDefinition q = Inl e) \<and>
   ((\<exists>e. splitLink q = Inl e) \<longleftrightarrow>
      doc_kind q \<noteq> ''Document'' \<or>
      (\<exists>d\<in>set (definitions q). kind d \<noteq> ''FragmentDefinition'' \<and> kind d \<noteq> ''OperationDefinition'') \<or>
      1 < length (filter (\<lambda>d. kind d \<noteq> ''FragmentDefinition'') (definitions q)) \<or>
      (\<forall>d\<in>set (definitions q). \<not> is_operation d \<and> kind d \<noteq> ''FragmentDefinition'')) \<and>
   (doc_kind q = ''Document'' \<and>
    filter (\<lambda>d. kind d \<noteq> ''FragmentDefinition'') (definitions q) = [d] \<and> is_operation d \<longrightarrow>
      splitLink q = Inr (if operation d = Some ''subscription'' then wsLink else httpLink)) \<and>
   (doc_kind q = ''Document'' \<and> definitions q \<noteq> [] \<and>
    (\<forall>d\<in>set (definitions q). kind d = ''FragmentDefinition'') \<longrightarrow>
      splitLink q = Inr httpLink)"
proof (intro conjI impI)
  show "splitLink q = Inr wsLink \<longleftrightarrow>
      (\<exists>d. getMainDefinition q = Inr d \<and>
           kind d = ''OperationDefinition'' \<and> operation d = Some ''subscription'')"
    by (cases "getMainDefinition q") (simp_all add: splitLink_cases)
  show "splitLink q = Inr httpLink \<longleftrightarrow>
      (\<exists>d. getMainDefinition q = Inr d \<and>
           \<not> (kind d = ''OperationDefinition'' \<and> operation d = Some ''subscription''))"
    by (cases "getMainDefinition q") (simp_all add: splitLink_cases)
  show e: "splitLink q = Inl e \<longleftrightarrow> getMainDefinition q = Inl e" for e
    by (cases "getMainDefinition q") (simp_all add: splitLink_cases)
  show "(\<exists>e. splitLink q = Inl e) \<longleftrightarrow>
      doc_kind q \<noteq> ''Document'' \<or>
      (\<exists>d\<in>set (definitions q). kind d \<noteq> ''FragmentDefinition'' \<and> kind d \<noteq> ''OperationDefinition'') \<or>
      1 < length (filter (\<lambda>d. kind d \<noteq> ''FragmentDefinition'') (definitions q)) \<or>
      (\<forall>d\<in>set (definitions q). \<not> is_operation d \<and> kind d \<noteq> ''FragmentDefinition'')"
    unfolding e by (rule getMainDefinition_fails)
next
  assume "doc_kind q = ''Document'' \<and>
    filter (\<lambda>d. kind d \<noteq> ''FragmentDefinition'') (definitions q) = [d] \<and> is_operation d"
  then have doc: "doc_kind q = ''Document''"
    and ops: "filter (\<lambda>d. kind d \<noteq> ''FragmentDefinition'') (definitions q) = [d]"
    and d: "is_operation d" by simp_all
  from d have "kind d = ''OperationDefinition''" by (rule is_operation_kind)
  then show "splitLink q = Inr (if operation d = Some ''subscription'' then wsLink else httpLink)"
    by (simp add: splitLink_cases getMainDefinition_single [OF doc ops d])
next
  assume "doc_kind q = ''Document'' \<and> definitions q \<noteq> [] \<and>
    (\<forall>d\<in>set (definitions q). kind d = ''FragmentDefinition'')"
  then have doc: "doc_kind q = ''Document''" and ne: "definitions q \<noteq> []"
    and fr: "\<forall>d\<in>set (definitions q). kind d = ''FragmentDefinition''" by simp_all
  from ne fr have "kind (hd (definitions q)) = ''FragmentDefinition''" by simp
  then show "splitLink q = Inr httpLink"
    by (simp add: splitLink_cases getMainDefinition_fragments [OF doc ne fr])
qed

text \<open>
  Witness for C5: a subscription beside a fragment goes to the WebSocket link, a mutation
  and a lone fragment go to the HTTP link; a document with two operations, a document
  with a schema definition and a document without definitions fail.
\<close>

theorem splitLink_by_main_definition_witness:
  "splitLink \<lparr>doc_kind = ''Document'',
      definitions = [\<lparr>kind = ''FragmentDefinition'', operation = None\<rparr>,
                     \<lparr>kind = ''OperationDefinition'', operation = Some ''subscription''\<rparr>]\<rparr> = Inr wsLink \<and>
   splitLink \<lparr>doc_kind = ''Document'',
      definitions = [\<lparr>kind = ''OperationDefinition'', operation = Some ''mutation''\<rparr>]\<rparr> = Inr httpLink \<and>
   splitLink \<lparr>doc_kind = ''Document'',
      definitions = [\<lparr>kind = ''FragmentDefinition'', operation = None\<rparr>]\<rparr> = Inr httpLink \<and>
   (\<exists>e. splitLink \<lparr>doc_kind = ''Document'',
      definitions = [\<lparr>kind = ''OperationDefinition'', operation = Some ''query''\<rparr>,
                     \<lparr>kind = ''OperationDefinition'', operation = Some ''subscription''\<rparr>]\<rparr> = Inl e) \<and>
   (\<exists>e. splitLink \<lparr>doc_kind = ''Document'',
      definitions = [\<lparr>kind = ''SchemaDefinition'', operation = None\<rparr>]\<rparr> = Inl e) \<and>
   (\<exists>e. splitLink \<lparr>doc_kind = ''Document'', definitions = []\<rparr> = Inl e) \<and>
   (\<exists>d. getMainDefinition \<lparr>doc_kind = ''Document'',
      definitions = [\<lparr>kind = ''FragmentDefinition'', operation = None\<rparr>,
                     \<lparr>kind = ''OperationDefinition'', operation = Some ''subscription''\<rparr>]\<rparr> = Inr d \<and>
        kind d = ''OperationDefinition'' \<and> operation d = Some ''subscription'')"
proof -
  let ?f = "\<lparr>kind = ''FragmentDefinition'', operation = None\<rparr>"
  let ?s = "\<lparr>kind = ''OperationDefinition'', operation = Some ''subscription''\<rparr>"
  let ?m = "\<lparr>kind = ''OperationDefinition'', operation = Some ''mutation''\<rparr>"
  let ?q = "\<lparr>kind = ''OperationDefinition'', operation = Some ''query''\<rparr>"
  let ?x = "\<lparr>kind = ''SchemaDefinition'', operation = None\<rparr>"
  note one = splitLink_by_main_definition [THEN conjunct2, THEN conjunct2, THEN conjunct2,
      THEN conjunct2, THEN conjunct1, THEN mp]
  note frag = splitLink_by_main_definition [THEN conjunct2, THEN conjunct2, THEN conjunct2,
      THEN conjunct2, THEN conjunct2, THEN mp]
  note fails = splitLink_by_main_definition [THEN conjunct2, THEN conjunct2, THEN conjunct2,
      THEN conjunct1, THEN iffD2]
  note ws = splitLink_by_main_definition [THEN conjunct1, THEN iffD1]
  have "splitLink \<lparr>doc_kind = ''Document'', definitions = [?f, ?s]\<rparr> =
      Inr (if operation ?s = Some ''subscription'' then wsLink else httpLink)"
    by (rule one) (simp add: is_operation_def)
  then have a: "splitLink \<lparr>doc_kind = ''Document'', definitions = [?f, ?s]\<rparr> = Inr wsLink"
    by simp
  have "splitLink \<lparr>doc_kind = ''Document'', definitions = [?m]\<rparr> =
      Inr (if operation ?m = Some ''subscription'' then wsLink else httpLink)"
    by (rule one) (simp add: is_operation_def)
  then have b: "splitLink \<lparr>doc_kind = ''Document'', definitions = [?m]\<rparr> = Inr httpLink"
    by simp
  have c: "splitLink \<lparr>doc_kind = ''Document'', definitions = [?f]\<rparr> = Inr httpLink"
    by (rule frag) simp
  have d: "\<exists>e. splitLink \<lparr>doc_kind = ''Document'', definitions = [?q, ?s]\<rparr> = Inl e"
    by (rule fails) simp
  have e: "\<exists>e. splitLink \<lparr>doc_kind = ''Document'', definitions = [?x]\<rparr> = Inl e"
    by (rule fails) simp
  have f: "\<exists>e. splitLink \<lparr>doc_kind = ''Document'', definitions = []\<rparr> = Inl e"
    by (rule fails) simp
  from a have g: "\<exists>d. getMainDefinition \<lparr>doc_kind = ''Document'', definitions = [?f, ?s]\<rparr> = Inr d \<and>
        kind d = ''OperationDefinition'' \<and> operation d = Some ''subscription''"
    by (rule ws)
  from a b c d e f g show ?thesis by (intro conjI)
qed

subsection \<open>C6: a late subscriber gets no earlier event\<close>

text \<open>
  Claim C6. A subscriber that registers after a write never receives that write's
  event. Whatever has been published before (the state \<open>s\<close> is arbitrary), each
  \<open>subscribe\<close> function that returns an iterator returns a newly constructed one at the
  end of the bus: it has been handed nothing, its queue is empty, its readers have been
  given nothing and it has no listener. Mutations alone leave it as it was constructed.
  After any further actions (mutations, calls of \<open>next()\<close>, resumed
  continuations, further subscriptions), what it has been
  handed is exactly what was published on its trigger name since its first \<open>next()\<close>,
  and that is the last part of what was published on its trigger name since it was
  returned: it never holds an event published before. In particular an iterator on user
  creation that is returned right after a \<open>createUser\<close> has been handed nothing. With
  the context of the WebSocket server the resolver of \<open>userCreated\<close> throws and
  returns no iterator at all.
\<close>

theorem late_subscriber_gets_no_earlier_event:
  "userCreated_subscribe ws_context s = (s, Inl TypeError) \<and>
   (snd (userCreated_subscribe (Some c) s) = Inr (length (pubsub s)) \<and>
    pubsub (fst (userCreated_subscribe (Some c) s)) ! length (pubsub s) =
      PubSubAsyncIterator [''USER_CREATED''] \<and>
    got (pubsub (fst (userCreated_subscribe (Some c) (fst (createUser inp s0)))) !
      length (pubsub (fst (createUser inp s0)))) = [] \<and>
    pubsub (run (fst (userCreated_subscribe (Some c) s)) ms) ! length (pubsub s) =
      PubSubAsyncIterator [''USER_CREATED''] \<and>
    got (pubsub (acts (fst (userCreated_subscribe (Some c) s)) as) ! length (pubsub s)) =
      published [''USER_CREATED'']
        (new_effects (acts (fst (userCreated_subscribe (Some c) s))
                       (takeWhile (\<lambda>a. a \<noteq> Next (length (pubsub s))) as))
           (acts (fst (userCreated_subscribe (Some c) s)) as)) \<and>
    published [''USER_CREATED'']
        (new_effects (fst (userCreated_subscribe (Some c) s))
           (acts (fst (userCreated_subscribe (Some c) s)) as)) =
      published [''USER_CREATED'']
        (new_effects (fst (userCreated_subscribe (Some c) s))
           (acts (fst (userCreated_subscribe (Some c) s))
              (takeWhile (\<lambda>a. a \<noteq> Next (length (pubsub s))) as))) @
      got (pubsub (acts (fst (userCreated_subscribe (Some c) s)) as) ! length (pubsub s))) \<and>
   (snd (userUpdated_subscribe s) = length (pubsub s) \<and>
    pubsub (fst (userUpdated_subscribe s)) ! length (pubsub s) =
      PubSubAsyncIterator [''USER_UPDATED''] \<and>
    pubsub (run (fst (userUpdated_subscribe s)) ms) ! length (pubsub s) =
      PubSubAsyncIterator [''USER_UPDATED''] \<and>
    got (pubsub (acts (fst (userUpdated_subscribe s)) as) ! length (pubsub s)) =
      published [''USER_UPDATED'']
        (new_effects (acts (fst (userUpdated_subscribe s))
                       (takeWhile (\<lambda>a. a \<noteq> Next (length (pubsub s))) as))
           (acts (fst (userUpdated_subscribe s)) as)) \<and>
    published [''USER_UPDATED'']
        (new_effects (fst (userUpdated_subscribe s)) (acts (fst (userUpdated_subscribe s)) as)) =
      published [''USER_UPDATED'']
        (new_effects (fst (userUpdated_subscribe s))
           (acts (fst (userUpdated_subscribe s))
              (takeWhile (\<lambda>a. a \<noteq> Next (length (pubsub s))) as))) @
      got (pubsub (acts (fst (userUpdated_subscribe s)) as) ! length (pubsub s))) \<and>
   (snd (userDeleted_subscribe s) = length (pubsub s) \<and>
    pubsub (fst (userDeleted_subscribe s)) ! length (pubsub s) =
      PubSubAsyncIterator [''USER_DELETED''] \<and>
    pubsub (run (fst (userDeleted_subscribe s)) ms) ! length (pubsub s) =
      PubSubAsyncIterator [''USER_DELETED''] \<and>
    got (pubsub (acts (fst (userDeleted_subscribe s)) as) ! length (pubsub s)) =
      published [''USER_DELETED'']
        (new_effects (acts (fst (userDeleted_subscribe s))
                       (takeWhile (\<lambda>a. a \<noteq> Next (length (pubsub s))) as))
           (acts (fst (userDeleted_subscribe s)) as)) \<and>
    published [''USER_DELETED'']
        (new_effects (fst (userDeleted_subscribe s)) (acts (fst (userDeleted_subscribe s)) as)) =
      published [''USER_DELETED'']
        (new_effects (fst (userDeleted_subscribe s))
           (acts (fst (userDeleted_subscribe s))
              (takeWhile (\<lambda>a. a \<noteq> Next (length (pubsub s))) as))) @
      got (pubsub (acts (fst (userDeleted_subscribe s)) as) ! length (pubsub s))) \<and>
   got (PubSubAsyncIterator ts) = [] \<and> pushQueue (PubSubAsyncIterator ts) = [] \<and>
   resolved (PubSubAsyncIterator ts) = [] \<and> jobs (PubSubAsyncIterator ts) = [] \<and>
   \<not> allSubscribed (PubSubAsyncIterator ts)"
proof -
  have c: "pubsub (fst (userCreated_subscribe (Some c) s)) =
      pubsub s @ [PubSubAsyncIterator [''USER_CREATED'']]"
    and u: "pubsub (fst (userUpdated_subscribe s)) = pubsub s @ [PubSubAsyncIterator [''USER_UPDATED'']]"
    and d: "pubsub (fst (userDeleted_subscribe s)) = pubsub s @ [PubSubAsyncIterator [''USER_DELETED'']]"
    by (simp_all add: subscribe_simps)
  have "userCreated_subscribe ws_context s = (s, Inl TypeError)"
    by (simp add: ws_context_def subscribe_simps)
  moreover have "snd (userCreated_subscribe (Some c) s) = Inr (length (pubsub s))"
    "snd (userUpdated_subscribe s) = length (pubsub s)"
    "snd (userDeleted_subscribe s) = length (pubsub s)"
    by (simp_all add: subscribe_simps)
  moreover have "pubsub (fst (userCreated_subscribe (Some c) s)) ! length (pubsub s) =
      PubSubAsyncIterator [''USER_CREATED'']"
    "pubsub (fst (userUpdated_subscribe s)) ! length (pubsub s) = PubSubAsyncIterator [''USER_UPDATED'']"
    "pubsub (fst (userDeleted_subscribe s)) ! length (pubsub s) = PubSubAsyncIterator [''USER_DELETED'']"
    by (simp_all add: subscribe_simps)
  moreover have "got (pubsub (fst (userCreated_subscribe (Some c) (fst (createUser inp s0)))) !
      length (pubsub (fst (createUser inp s0)))) = []"
    by (simp add: subscribe_simps fresh_facts)
  moreover note fresh_iterator_history [OF c, of as] fresh_iterator_history [OF u, of as]
    fresh_iterator_history [OF d, of as]
  moreover note fresh_after_mutations [OF c, of ms] fresh_after_mutations [OF u, of ms]
    fresh_after_mutations [OF d, of ms]
  moreover have "got (PubSubAsyncIterator ts) = []" "pushQueue (PubSubAsyncIterator ts) = []"
    "resolved (PubSubAsyncIterator ts) = []" "jobs (PubSubAsyncIterator ts) = []"
    "\<not> allSubscribed (PubSubAsyncIterator ts)"
    by (simp_all add: fresh_facts)
  ultimately show ?thesis by (simp only: simp_thms)
qed

subsection \<open>C7: update and delete of a missing id fail, of a present id succeed\<close>

text \<open>
  Claim C7. For an id that is not in the store, \<open>updateUser\<close> and \<open>deleteUser\<close> fail
  with the error \<open>User with ID ... not found\<close> and leave the state as it was, and the
  server goes on with the next mutations as if the failed one had not been sent. For an
  id that is in the store, with \<open>i\<close> the index of the first user with that id,
  \<open>updateUser\<close> returns the updated record: the record now stored at \<open>i\<close>, which has
  the id, and in which each other field has the value given in the input if the input
  has the key and the previous value otherwise; and \<open>deleteUser\<close> returns \<open>true\<close> and
  removes the user at \<open>i\<close> from the store.
\<close>

theorem update_delete_missing_or_present:
  "(ident \<notin> user_id ` set (users s) \<longrightarrow>
      updateUser ident inp s = (s, Inl (Error (''User with ID '' @ ident @ '' not found''))) \<and>
      deleteUser ident s = (s, Inl (Error (''User with ID '' @ ident @ '' not found''))) \<and>
      run s (UpdateUser ident inp # ms) = run s ms \<and>
      run s (DeleteUser ident # ms) = run s ms) \<and>
   (ident \<in> user_id ` set (users s) \<longrightarrow>
      (\<exists>i<length (users s).
          user_id (users s ! i) = ident \<and>
          (\<forall>j<i. user_id (users s ! j) \<noteq> ident) \<and>
          (\<exists>r. snd (updateUser ident inp s) = Inr r \<and>
               users (fst (updateUser ident inp s)) ! i = r \<and>
               user_id r = ident \<and>
               name r = (case u_name inp of None \<Rightarrow> name (users s ! i) | Some v \<Rightarrow> v) \<and>
               age r = (case u_age inp of None \<Rightarrow> age (users s ! i) | Some v \<Rightarrow> v) \<and>
               salary r = (case u_salary inp of None \<Rightarrow> salary (users s ! i) | Some v \<Rightarrow> v) \<and>
               department r =
                 (case u_department inp of None \<Rightarrow> department (users s ! i) | Some v \<Rightarrow> v)) \<and>
          snd (deleteUser ident s) = Inr True \<and>
          users (fst (deleteUser ident s)) = take i (users s) @ drop (Suc i) (users s)))"
proof (intro conjI impI)
  assume "ident \<notin> user_id ` set (users s)"
  then have none: "findIndex (\<lambda>u. user_id u = ident) (users s) = None"
    by (rule findIndex_absent)
  show u: "updateUser ident inp s = (s, Inl (Error (''User with ID '' @ ident @ '' not found'')))"
    using updateUser_None [OF none] by (simp only: not_found_def)
  show d: "deleteUser ident s = (s, Inl (Error (''User with ID '' @ ident @ '' not found'')))"
    using deleteUser_None [OF none] by (simp only: not_found_def)
  show "run s (UpdateUser ident inp # ms) = run s ms"
    by (simp add: u)
  show "run s (DeleteUser ident # ms) = run s ms"
    by (simp add: d)
next
  assume "ident \<in> user_id ` set (users s)"
  then have "\<exists>i. findIndex (\<lambda>u. user_id u = ident) (users s) = Some i"
    by (rule findIndex_present)
  then obtain i where i: "findIndex (\<lambda>u. user_id u = ident) (users s) = Some i" ..
  from findIndex_Some [OF i] have bound: "i < length (users s)"
    and at: "user_id (users s ! i) = ident"
    and first: "\<forall>j<i. user_id (users s ! j) \<noteq> ident"
    by simp_all
  let ?r = "spread (users s ! i) inp"
  have r: "snd (updateUser ident inp s) = Inr ?r \<and>
               users (fst (updateUser ident inp s)) ! i = ?r \<and>
               user_id ?r = ident \<and>
               name ?r = (case u_name inp of None \<Rightarrow> name (users s ! i) | Some v \<Rightarrow> v) \<and>
               age ?r = (case u_age inp of None \<Rightarrow> age (users s ! i) | Some v \<Rightarrow> v) \<and>
               salary ?r = (case u_salary inp of None \<Rightarrow> salary (users s ! i) | Some v \<Rightarrow> v) \<and>
               department ?r =
                 (case u_department inp of None \<Rightarrow> department (users s ! i) | Some v \<Rightarrow> v)"
    using bound at by (simp add: updateUser_Some [OF i]) (simp add: spread_def)
  have d: "snd (deleteUser ident s) = Inr True"
    "users (fst (deleteUser ident s)) = take i (users s) @ drop (Suc i) (users s)"
    by (simp_all add: deleteUser_Some [OF i] splice1_def)
  from r have "\<exists>r. snd (updateUser ident inp s) = Inr r \<and>
               users (fst (updateUser ident inp s)) ! i = r \<and>
               user_id r = ident \<and>
               name r = (case u_name inp of None \<Rightarrow> name (users s ! i) | Some v \<Rightarrow> v) \<and>
               age r = (case u_age inp of None \<Rightarrow> age (users s ! i) | Some v \<Rightarrow> v) \<and>
               salary r = (case u_salary inp of None \<Rightarrow> salary (users s ! i) | Some v \<Rightarrow> v) \<and>
               department r =
                 (case u_department inp of None \<Rightarrow> department (users s ! i) | Some v \<Rightarrow> v)"
    by (rule exI)
  with bound at first d
  show "\<exists>i<length (users s).
          user_id (users s ! i) = ident \<and>
          (\<forall>j<i. user_id (users s ! j) \<noteq> ident) \<and>
          (\<exists>r. snd (updateUser ident inp s) = Inr r \<and>
               users (fst (updateUser ident inp s)) ! i = r \<and>
               user_id r = ident \<and>
               name r = (case u_name inp of None \<Rightarrow> name (users s ! i) | Some v \<Rightarrow> v) \<and>
               age r = (case u_age inp of None \<Rightarrow> age (users s ! i) | Some v \<Rightarrow> v) \<and>
               salary r = (case u_salary inp of None \<Rightarrow> salary (users s ! i) | Some v \<Rightarrow> v) \<and>
               department r =
                 (case u_department inp of None \<Rightarrow> department (users s ! i) | Some v \<Rightarrow> v)) \<and>
          snd (deleteUser ident s) = Inr True \<and>
          users (fst (deleteUser ident s)) = take i (users s) @ drop (Suc i) (users s)"
    by (intro exI [of _ i] conjI)
qed

text \<open>
  Witness for C7: id 7 is missing from the sample data; updating user 3 with an age and a
  null department returns and stores the record with the new age, no department and the
  other fields as before; deleting user 2 returns \<open>true\<close> and leaves users 1 and 3.
\<close>

theorem update_delete_missing_or_present_witness:
  "''7'' \<notin> user_id ` set (users initial) \<and>
   updateUser ''7'' \<lparr>u_name = None, u_age = Some (Some 23), u_salary = None, u_department = Some None\<rparr>
     initial = (initial, Inl (Error ''User with ID 7 not found'')) \<and>
   deleteUser ''7'' initial = (initial, Inl (Error ''User with ID 7 not found'')) \<and>
   ''3'' \<in> user_id ` set (users initial) \<and>
   snd (updateUser ''3'' \<lparr>u_name = None, u_age = Some (Some 23), u_salary = None, u_department = Some None\<rparr>
     initial) =
     Inr \<lparr>user_id = ''3'', name = Some ''Ravi'', age = Some 23, salary = Some 60000, department = None\<rparr> \<and>
   users (fst (updateUser ''3''
     \<lparr>u_name = None, u_age = Some (Some 23), u_salary = None, u_department = Some None\<rparr> initial)) ! 2 =
     \<lparr>user_id = ''3'', name = Some ''Ravi'', age = Some 23, salary = Some 60000, department = None\<rparr> \<and>
   ''2'' \<in> user_id ` set (users initial) \<and>
   snd (deleteUser ''2'' initial) = Inr True \<and>
   users (fst (deleteUser ''2'' initial)) =
     [\<lparr>user_id = ''1'', name = Some ''Rahul'', age = Some 25, salary = Some 70000,
        department = Some ''Engineering''\<rparr>,
      \<lparr>user_id = ''3'', name = Some ''Ravi'', age = Some 22, salary = Some 60000,
        department = Some ''Support''\<rparr>]"
proof -
  let ?inp = "\<lparr>u_name = None, u_age = Some (Some 23), u_salary = None, u_department = Some None\<rparr>"
  let ?r = "\<lparr>user_id = ''3'', name = Some ''Ravi'', age = Some 23, salary = Some 60000, department = None\<rparr>"
  have us: "users initial = initial_users" by (simp add: initial_def)
  have len: "length initial_users = 3" by (simp add: initial_users_def)
  have which: "(i = 2 \<longleftrightarrow> user_id (initial_users ! i) = ''3'') \<and>
      (i = 1 \<longleftrightarrow> user_id (initial_users ! i) = ''2'')" if "i < 3" for i
  proof -
    from that have "i = 0 \<or> i = 1 \<or> i = 2" by arith
    then show ?thesis by (elim disjE) (simp_all add: initial_users_def)
  qed
  have absent: "''7'' \<notin> user_id ` set (users initial)"
    by (simp add: initial_def initial_users_def)
  have present3: "''3'' \<in> user_id ` set (users initial)"
    by (simp add: initial_def initial_users_def)
  have present2: "''2'' \<in> user_id ` set (users initial)"
    by (simp add: initial_def initial_users_def)
  note missing = update_delete_missing_or_present [of "''7''" initial ?inp "[]",
      THEN conjunct1, THEN mp, OF absent]
  from missing have m1: "updateUser ''7'' ?inp initial = (initial, Inl (Error ''User with ID 7 not found''))"
    by simp
  from missing have m2: "deleteUser ''7'' initial = (initial, Inl (Error ''User with ID 7 not found''))"
    by simp
  from update_delete_missing_or_present [of "''3''" initial ?inp "[]", THEN conjunct2, THEN mp,
      OF present3]
  obtain i r where i: "i < length (users initial)" and at: "user_id (users initial ! i) = ''3''"
    and res: "snd (updateUser ''3'' ?inp initial) = Inr r"
    and stored: "users (fst (updateUser ''3'' ?inp initial)) ! i = r"
    and f: "user_id r = ''3''"
      "name r = (case u_name ?inp of None \<Rightarrow> name (users initial ! i) | Some v \<Rightarrow> v)"
      "age r = (case u_age ?inp of None \<Rightarrow> age (users initial ! i) | Some v \<Rightarrow> v)"
      "salary r = (case u_salary ?inp of None \<Rightarrow> salary (users initial ! i) | Some v \<Rightarrow> v)"
      "department r = (case u_department ?inp of None \<Rightarrow> department (users initial ! i) | Some v \<Rightarrow> v)"
    by (elim exE conjE)
  from i have "i < 3" by (simp only: us len)
  from which [OF this] at have i2: "i = 2" by (simp only: us)
  from f have "user_id r = ''3''" "name r = Some ''Ravi''" "age r = Some 23" "salary r = Some 60000"
    "department r = None"
    unfolding i2 us by (simp_all add: initial_users_def)
  then have r: "r = ?r" by (cases r) simp
  from update_delete_missing_or_present [of "''2''" initial ?inp "[]", THEN conjunct2, THEN mp,
      OF present2]
  obtain j where j: "j < length (users initial)" and atj: "user_id (users initial ! j) = ''2''"
    and del: "snd (deleteUser ''2'' initial) = Inr True"
    and rest: "users (fst (deleteUser ''2'' initial)) = take j (users initial) @ drop (Suc j) (users initial)"
    by (elim exE conjE)
  from j have "j < 3" by (simp only: us len)
  from which [OF this] atj have j1: "j = 1" by (simp only: us)
  from rest have rest': "users (fst (deleteUser ''2'' initial)) =
     [\<lparr>user_id = ''1'', name = Some ''Rahul'', age = Some 25, salary = Some 70000,
        department = Some ''Engineering''\<rparr>,
      \<lparr>user_id = ''3'', name = Some ''Ravi'', age = Some 22, salary = Some 60000,
        department = Some ''Support''\<rparr>]"
    unfolding j1 us by (simp add: initial_users_def)
  from res r have res': "snd (updateUser ''3'' ?inp initial) = Inr ?r" by (simp only:)
  from stored r i2 have stored': "users (fst (updateUser ''3'' ?inp initial)) ! 2 = ?r" by (simp only:)
  from absent m1 m2 present3 res' stored' present2 del rest' show ?thesis by (intro conjI)
qed

subsection \<open>C8: no subscriber on user creation exists in the server\<close>

text \<open>
  Claim C8 says that a create write delivers its event to a subscriber on user creation
  and nothing to a subscriber on user deletion. The resolver of \<open>userCreated\<close> takes
  \<open>user\<close> out of the context, and the context of the WebSocket server is
  \<open>undefined\<close>, so the resolver throws before it reaches \<open>pubsub.asyncIterator\<close>.
  Subscribing to user creation leaves the state as it was, no state the server can reach
  has an iterator on \<open>USER_CREATED\<close>, and \<open>createUser\<close> leaves the bus of such a
  state as it was: its event reaches nobody. After a subscription to user creation, one
  to user deletion and a \<open>createUser\<close>, the bus holds the deletion iterator alone,
  which has been handed nothing. In every state \<open>createUser\<close> leaves the iterators
  that do not listen on \<open>USER_CREATED\<close> untouched. Given a context (the resolvers of
  \<open>userUpdated\<close> and \<open>userDeleted\<close> need none), the same run gives the creation
  event to the reader of the creation subscriber and nothing to the deletion subscriber.
\<close>

theorem userCreated_subscription_throws:
  "userCreated_subscribe ws_context s = (s, Inl TypeError) \<and>
   act Subscribe_userCreated s = s \<and>
   filter (\<lambda>it. ''USER_CREATED'' \<in> set (eventsArray it)) (pubsub (acts initial as)) = [] \<and>
   pubsub (fst (createUser inp (acts initial as))) = pubsub (acts initial as) \<and>
   filter (\<lambda>it. ''USER_CREATED'' \<notin> set (eventsArray it)) (pubsub (fst (createUser inp s))) =
     filter (\<lambda>it. ''USER_CREATED'' \<notin> set (eventsArray it)) (pubsub s) \<and>
   pubsub (acts initial [Subscribe_userCreated, Subscribe_userDeleted, Next 0, Job 0,
       Mutate (CreateUser \<lparr>c_name = ''X'', c_age = 1, c_salary = 1, c_department = ''D''\<rparr>), Job 0]) =
     [\<lparr>eventsArray = [''USER_DELETED''], allSubscribed = True, pullQueue = 1, pushQueue = [],
       jobs = [], resolved = []\<rparr>] \<and>
   pubsub (acts (fst (userDeleted_subscribe
        (fst (userCreated_subscribe (Some \<lparr>user = Some ''ndk''\<rparr>) initial))))
      [Next 0, Job 0, Next 1, Job 1,
       Mutate (CreateUser \<lparr>c_name = ''X'', c_age = 1, c_salary = 1, c_department = ''D''\<rparr>),
       Job 0, Job 1]) =
     [\<lparr>eventsArray = [''USER_CREATED''], allSubscribed = True, pullQueue = 0, pushQueue = [],
       jobs = [],
       resolved = [userCreated \<lparr>user_id = ''4'', name = Some ''X'', age = Some 1, salary = Some 1,
                     department = Some ''D''\<rparr>]\<rparr>,
      \<lparr>eventsArray = [''USER_DELETED''], allSubscribed = True, pullQueue = 1, pushQueue = [],
       jobs = [], resolved = []\<rparr>]"
proof (intro conjI)
  show "userCreated_subscribe ws_context s = (s, Inl TypeError)"
    by (simp add: ws_context_def subscribe_simps)
  then show "act Subscribe_userCreated s = s" by simp
  show none: "filter (\<lambda>it. ''USER_CREATED'' \<in> set (eventsArray it)) (pubsub (acts initial as)) = []"
    by (rule initial_no_creation_iterator)
  have "pubsub (fst (createUser inp (acts initial as))) =
      publish ''USER_CREATED'' (userCreated (snd (createUser inp (acts initial as)))) (pubsub (acts initial as))"
    by (simp add: createUser_eq)
  also have "\<dots> = pubsub (acts initial as)"
    using none by (rule publish_nobody)
  finally show "pubsub (fst (createUser inp (acts initial as))) = pubsub (acts initial as)" .
  show "filter (\<lambda>it. ''USER_CREATED'' \<notin> set (eventsArray it)) (pubsub (fst (createUser inp s))) =
     filter (\<lambda>it. ''USER_CREATED'' \<notin> set (eventsArray it)) (pubsub s)"
    by (simp add: createUser_eq publish_others)
  show "pubsub (acts initial [Subscribe_userCreated, Subscribe_userDeleted, Next 0, Job 0,
       Mutate (CreateUser \<lparr>c_name = ''X'', c_age = 1, c_salary = 1, c_department = ''D''\<rparr>), Job 0]) =
     [\<lparr>eventsArray = [''USER_DELETED''], allSubscribed = True, pullQueue = 1, pushQueue = [],
       jobs = [], resolved = []\<rparr>]"
    by (simp add: ws_context_def subscribe_simps initial_def on_iterator_def PubSubAsyncIterator_def
        iterator_next_def run_job_def pullValue_def pushValue_def createUser_eq publish_def emit_def)
  show "pubsub (acts (fst (userDeleted_subscribe
        (fst (userCreated_subscribe (Some \<lparr>user = Some ''ndk''\<rparr>) initial))))
      [Next 0, Job 0, Next 1, Job 1,
       Mutate (CreateUser \<lparr>c_name = ''X'', c_age = 1, c_salary = 1, c_department = ''D''\<rparr>),
       Job 0, Job 1]) =
     [\<lparr>eventsArray = [''USER_CREATED''], allSubscribed = True, pullQueue = 0, pushQueue = [],
       jobs = [],
       resolved = [userCreated \<lparr>user_id = ''4'', name = Some ''X'', age = Some 1, salary = Some 1,
                     department = Some ''D''\<rparr>]\<rparr>,
      \<lparr>eventsArray = [''USER_DELETED''], allSubscribed = True, pullQueue = 1, pushQueue = [],
       jobs = [], resolved = []\<rparr>]"
    by (simp add: subscribe_simps initial_def on_iterator_def PubSubAsyncIterator_def
        iterator_next_def run_job_def pullValue_def pushValue_def createUser_eq publish_def emit_def
        toString.simps digit_def)
qed

subsection \<open>C9: ids stay distinct while the counter is exact\<close>

text \<open>
  Claim C9 says that every sequence of mutations from the initial state keeps the ids
  pairwise distinct, because each \<open>createUser\<close> takes a counter value above all ids
  assigned before. The counter is a JavaScript number and stops growing at \<open>2^53\<close>.
  Creating a user and deleting it again, for every counter value from 4 up to
  \<open>2^53 - 1\<close>, leaves the sample data and the counter \<open>2^53\<close>; the next two
  \<open>createUser\<close> calls both get the id \<open>9007199254740992\<close>. That sequence has
  \<open>2^53 - 2\<close> calls of \<open>createUser\<close>.
\<close>

theorem duplicate_ids_counterexample:
  "creates (churn 4 MAX_EXACT \<lparr>c_name = ''X'', c_age = 1, c_salary = 1, c_department = ''D''\<rparr> @
       [CreateUser \<lparr>c_name = ''X'', c_age = 1, c_salary = 1, c_department = ''D''\<rparr>,
        CreateUser \<lparr>c_name = ''X'', c_age = 1, c_salary = 1, c_department = ''D''\<rparr>]) = MAX_EXACT - 2 \<and>
   map user_id (users (run initial
      (churn 4 MAX_EXACT \<lparr>c_name = ''X'', c_age = 1, c_salary = 1, c_department = ''D''\<rparr> @
       [CreateUser \<lparr>c_name = ''X'', c_age = 1, c_salary = 1, c_department = ''D''\<rparr>,
        CreateUser \<lparr>c_name = ''X'', c_age = 1, c_salary = 1, c_department = ''D''\<rparr>]))) =
     [''1'', ''2'', ''3'', ''9007199254740992'', ''9007199254740992''] \<and>
   \<not> distinct (map user_id (users (run initial
      (churn 4 MAX_EXACT \<lparr>c_name = ''X'', c_age = 1, c_salary = 1, c_department = ''D''\<rparr> @
       [CreateUser \<lparr>c_name = ''X'', c_age = 1, c_salary = 1, c_department = ''D''\<rparr>,
        CreateUser \<lparr>c_name = ''X'', c_age = 1, c_salary = 1, c_department = ''D''\<rparr>]))))"
proof -
  let ?inp = "\<lparr>c_name = ''X'', c_age = 1, c_salary = 1, c_department = ''D''\<rparr>"
  let ?s = "run initial (churn 4 MAX_EXACT ?inp)"
  have "nextUserId initial = 4" "ids_below 4 (users initial)"
    using ids_below_initial by (simp_all add: initial_def)
  from churn_run [OF MAX_EXACT_ge order_refl this, of ?inp]
  have us: "users ?s = initial_users" and n: "nextUserId ?s = MAX_EXACT"
    by (simp_all add: initial_def)
  have str: "toString MAX_EXACT = ''9007199254740992''"
    by (simp add: MAX_EXACT_def toString.simps digit_def)
  have ids: "map user_id (users (run initial (churn 4 MAX_EXACT ?inp @ [CreateUser ?inp, CreateUser ?inp]))) =
     [''1'', ''2'', ''3'', ''9007199254740992'', ''9007199254740992'']"
    by (simp add: run_append createUser_eq us n incr_def str initial_users_def)
  have cr: "creates (churn 4 MAX_EXACT ?inp @ [CreateUser ?inp, CreateUser ?inp]) = MAX_EXACT - 2"
    using MAX_EXACT_ge by (simp add: creates_append creates_churn) (simp add: creates_def)
  show ?thesis
    unfolding ids using cr by simp
qed

text \<open>
  Claim C9, as amended. Starting from the initial three users with the counter at 4,
  every sequence of mutations with at most \<open>2^53 - 3\<close> calls of \<open>createUser\<close> keeps
  the ids pairwise distinct; every id in the store is the string form of a number below
  4 plus the number of \<open>createUser\<close> calls so far; and as long as fewer than
  \<open>2^53 - 3\<close> calls have been made, the next \<open>createUser\<close> assigns the string form
  of exactly that number, which is the id of no user in the store.
\<close>

theorem ids_distinct_while_counter_exact:
  "creates ms \<le> MAX_EXACT - 3 \<Longrightarrow>
   distinct (map user_id (users (run initial ms))) \<and>
   ids_below (4 + creates ms) (users (run initial ms)) \<and>
   nextUserId (run initial ms) = min (4 + creates ms) MAX_EXACT \<and>
   (creates ms < MAX_EXACT - 3 \<longrightarrow>
      user_id (snd (createUser inp (run initial ms))) = toString (4 + creates ms) \<and>
      user_id (snd (createUser inp (run initial ms))) \<notin> user_id ` set (users (run initial ms)))"
proof -
  assume bound: "creates ms \<le> MAX_EXACT - 3"
  then have b: "0 + creates ms \<le> MAX_EXACT - 3" by simp
  from run_ids [OF initial_ids b]
  have n: "nextUserId (run initial ms) = min (4 + creates ms) MAX_EXACT"
    and below: "ids_below (4 + creates ms) (users (run initial ms))"
    and dist: "distinct (map user_id (users (run initial ms)))"
    by simp_all
  have "user_id (snd (createUser inp (run initial ms))) = toString (4 + creates ms) \<and>
      user_id (snd (createUser inp (run initial ms))) \<notin> user_id ` set (users (run initial ms))"
    if less: "creates ms < MAX_EXACT - 3"
  proof -
    from less have "4 + creates ms \<le> MAX_EXACT" by simp
    with n have n': "nextUserId (run initial ms) = 4 + creates ms" by simp
    have "toString (4 + creates ms) \<notin> user_id ` set (users (run initial ms))"
      using below by (rule ids_below_fresh) simp
    then show ?thesis by (simp add: createUser_eq n')
  qed
  then have "creates ms < MAX_EXACT - 3 \<longrightarrow>
      user_id (snd (createUser inp (run initial ms))) = toString (4 + creates ms) \<and>
      user_id (snd (createUser inp (run initial ms))) \<notin> user_id ` set (users (run initial ms))"
    by (rule impI)
  with n below dist show ?thesis by (intro conjI)
qed

text \<open>
  Witness for C9: create, delete user 2, create: the ids are 1, 3, 4, 5, the counter is
  6, and the next user created gets the id 6.
\<close>

theorem ids_distinct_while_counter_exact_witness:
  "creates [CreateUser \<lparr>c_name = ''X'', c_age = 1, c_salary = 1, c_department = ''D''\<rparr>,
            DeleteUser ''2'',
            CreateUser \<lparr>c_name = ''Y'', c_age = 2, c_salary = 2, c_department = ''D''\<rparr>] \<le> MAX_EXACT - 3 \<and>
   map user_id (users (run initial
           [CreateUser \<lparr>c_name = ''X'', c_age = 1, c_salary = 1, c_department = ''D''\<rparr>,
            DeleteUser ''2'',
            CreateUser \<lparr>c_name = ''Y'', c_age = 2, c_salary = 2, c_department = ''D''\<rparr>])) =
     [''1'', ''3'', ''4'', ''5''] \<and>
   distinct (map user_id (users (run initial
           [CreateUser \<lparr>c_name = ''X'', c_age = 1, c_salary = 1, c_department = ''D''\<rparr>,
            DeleteUser ''2'',
            CreateUser \<lparr>c_name = ''Y'', c_age = 2, c_salary = 2, c_department = ''D''\<rparr>]))) \<and>
   nextUserId (run initial
           [CreateUser \<lparr>c_name = ''X'', c_age = 1, c_salary = 1, c_department = ''D''\<rparr>,
            DeleteUser ''2'',
            CreateUser \<lparr>c_name = ''Y'', c_age = 2, c_salary = 2, c_department = ''D''\<rparr>]) = 6 \<and>
   user_id (snd (createUser \<lparr>c_name = ''Z'', c_age = 3, c_salary = 3, c_department = ''D''\<rparr>
     (run initial
           [CreateUser \<lparr>c_name = ''X'', c_age = 1, c_salary = 1, c_department = ''D''\<rparr>,
            DeleteUser ''2'',
            CreateUser \<lparr>c_name = ''Y'', c_age = 2, c_salary = 2, c_department = ''D''\<rparr>]))) = ''6''"
proof -
  let ?ms = "[CreateUser \<lparr>c_name = ''X'', c_age = 1, c_salary = 1, c_department = ''D''\<rparr>,
            DeleteUser ''2'',
            CreateUser \<lparr>c_name = ''Y'', c_age = 2, c_salary = 2, c_department = ''D''\<rparr>]"
  have c: "creates ?ms = 2" by (simp add: creates_def)
  have bound: "creates ?ms \<le> MAX_EXACT - 3" by (simp add: c MAX_EXACT_def)
  have ids: "map user_id (users (run initial ?ms)) = [''1'', ''3'', ''4'', ''5'']"
    by (simp add: initial_def initial_users_def createUser_eq deleteUser_def store_write_def
        pubsub_publish_def splice1_def incr_def MAX_EXACT_def toString.simps digit_def)
  have less: "creates ?ms < MAX_EXACT - 3" by (simp add: c MAX_EXACT_def)
  have six: "toString 6 = ''6''" by (simp add: toString.simps digit_def)
  note th = ids_distinct_while_counter_exact [OF bound,
      of "\<lparr>c_name = ''Z'', c_age = 3, c_salary = 3, c_department = ''D''\<rparr>"]
  from th have d: "distinct (map user_id (users (run initial ?ms)))"
    by (rule conjunct1)
  from th have "nextUserId (run initial ?ms) = min (4 + creates ?ms) MAX_EXACT"
    by (rule conjunct2 [THEN conjunct2, THEN conjunct1])
  then have n: "nextUserId (run initial ?ms) = 6"
    by (simp add: c MAX_EXACT_def)
  from th less have "user_id (snd (createUser \<lparr>c_name = ''Z'', c_age = 3, c_salary = 3, c_department = ''D''\<rparr>
      (run initial ?ms))) = toString (4 + creates ?ms)"
    by (rule conjunct2 [THEN conjunct2, THEN conjunct2, THEN mp, THEN conjunct1])
  then have next_id: "user_id (snd (createUser \<lparr>c_name = ''Z'', c_age = 3, c_salary = 3, c_department = ''D''\<rparr>
      (run initial ?ms))) = ''6''"
    by (simp add: c six)
  from bound ids d n next_id show ?thesis by (intro conjI)
qed

subsection \<open>C10: what updateUser leaves alone\<close>

text \<open>
  Claim C10. For an id that is in the store, \<open>updateUser\<close> changes only the first user
  with that id, at index \<open>i\<close>: the store keeps its length, every user at another index
  is unchanged, the user at \<open>i\<close> keeps its id and every field whose key is absent from
  the input, and the counter is unchanged.
\<close>

theorem updateUser_frame:
  "ident \<in> user_id ` set (users s) \<Longrightarrow>
   \<exists>i<length (users s).
      user_id (users s ! i) = ident \<and>
      (\<forall>j<i. user_id (users s ! j) \<noteq> ident) \<and>
      users (fst (updateUser ident inp s)) = (users s)[i := spread (users s ! i) inp] \<and>
      length (users (fst (updateUser ident inp s))) = length (users s) \<and>
      (\<forall>j<length (users s). j \<noteq> i \<longrightarrow> users (fst (updateUser ident inp s)) ! j = users s ! j) \<and>
      user_id (users (fst (updateUser ident inp s)) ! i) = user_id (users s ! i) \<and>
      (u_name inp = None \<longrightarrow>
         name (users (fst (updateUser ident inp s)) ! i) = name (users s ! i)) \<and>
      (u_age inp = None \<longrightarrow>
         age (users (fst (updateUser ident inp s)) ! i) = age (users s ! i)) \<and>
      (u_salary inp = None \<longrightarrow>
         salary (users (fst (updateUser ident inp s)) ! i) = salary (users s ! i)) \<and>
      (u_department inp = None \<longrightarrow>
         department (users (fst (updateUser ident inp s)) ! i) = department (users s ! i)) \<and>
      nextUserId (fst (updateUser ident inp s)) = nextUserId s"
proof -
  assume "ident \<in> user_id ` set (users s)"
  then obtain i where i: "findIndex (\<lambda>u. user_id u = ident) (users s) = Some i"
    using findIndex_present by blast
  from findIndex_Some [OF i] have bound: "i < length (users s)"
    and at: "user_id (users s ! i) = ident"
    and first: "\<forall>j<i. user_id (users s ! j) \<noteq> ident"
    by simp_all
  have us: "users (fst (updateUser ident inp s)) = (users s)[i := spread (users s ! i) inp]"
    and cnt: "nextUserId (fst (updateUser ident inp s)) = nextUserId s"
    by (simp_all add: updateUser_Some [OF i])
  show ?thesis
    using bound at first by (intro exI [of _ i]) (simp add: us cnt spread_def)
qed

text \<open>
  Witness for C10: updating user 2 with an age and a null department changes those two
  fields of user 2 and nothing else.
\<close>

theorem updateUser_frame_witness:
  "''2'' \<in> user_id ` set (users initial) \<and>
   users (fst (updateUser ''2''
       \<lparr>u_name = None, u_age = Some (Some 31), u_salary = None, u_department = Some None\<rparr> initial)) =
     [\<lparr>user_id = ''1'', name = Some ''Rahul'', age = Some 25, salary = Some 70000,
        department = Some ''Engineering''\<rparr>,
      \<lparr>user_id = ''2'', name = Some ''Aisha'', age = Some 31, salary = Some 85000,
        department = None\<rparr>,
      \<lparr>user_id = ''3'', name = Some ''Ravi'', age = Some 22, salary = Some 60000,
        department = Some ''Support''\<rparr>] \<and>
   (\<exists>i<length (users initial).
      user_id (users initial ! i) = ''2'' \<and>
      (\<forall>j<length (users initial). j \<noteq> i \<longrightarrow>
         users (fst (updateUser ''2''
           \<lparr>u_name = None, u_age = Some (Some 31), u_salary = None, u_department = Some None\<rparr>
           initial)) ! j = users initial ! j))"
proof -
  have present: "''2'' \<in> user_id ` set (users initial)"
    by (simp add: initial_def initial_users_def)
  have run: "users (fst (updateUser ''2''
       \<lparr>u_name = None, u_age = Some (Some 31), u_salary = None, u_department = Some None\<rparr> initial)) =
     [\<lparr>user_id = ''1'', name = Some ''Rahul'', age = Some 25, salary = Some 70000,
        department = Some ''Engineering''\<rparr>,
      \<lparr>user_id = ''2'', name = Some ''Aisha'', age = Some 31, salary = Some 85000,
        department = None\<rparr>,
      \<lparr>user_id = ''3'', name = Some ''Ravi'', age = Some 22, salary = Some 60000,
        department = Some ''Support''\<rparr>]"
    by (simp add: initial_def initial_users_def updateUser_def store_write_def
        pubsub_publish_def spread_def)
  from updateUser_frame [OF present,
      of "\<lparr>u_name = None, u_age = Some (Some 31), u_salary = None, u_department = Some None\<rparr>"]
  have "\<exists>i<length (users initial).
      user_id (users initial ! i) = ''2'' \<and>
      (\<forall>j<length (users initial). j \<noteq> i \<longrightarrow>
         users (fst (updateUser ''2''
           \<lparr>u_name = None, u_age = Some (Some 31), u_salary = None, u_department = Some None\<rparr>
           initial)) ! j = users initial ! j)"
    by (elim exE conjE, intro exI conjI) assumption+
  then show ?thesis
    by (intro conjI present run)
qed

end
